theory Spec2Isabelle
  imports
    Complex_Main
    "HOL-Library.Sublist"
    "HOL-Library.Char_ord"
    "HOL-Library.List_Lexorder"
    "HOL-Library.Product_Lexorder"
begin

section \<open>JavaScript string primitives\<close>

text \<open>
  A string is a list of code units. The strings of the index (paths, names,
  tags, the output of the external tool, the fields of an error) are lists
  of characters, a character being a code unit below 256; the parameters of a
  tag search are lists of code units of any value. Below 256 the letters with
  a case are the ASCII letters and the Latin-1 letters \<^verbatim>\<open>U+00C0\<close> to \<^verbatim>\<open>U+00DE\<close> and
  \<^verbatim>\<open>U+00E0\<close> to \<^verbatim>\<open>U+00FE\<close> (without the two arithmetic signs); the capital of \<^verbatim>\<open>U+00DF\<close>
  is \<^verbatim>\<open>SS\<close>, and the capitals of \<^verbatim>\<open>U+00B5\<close> and \<^verbatim>\<open>U+00FF\<close> are not below 256: these two
  are kept, the upper-case form being only searched for ASCII words. SQLite
  folds the ASCII letters only.
\<close>

definition to_lower_char :: "char \<Rightarrow> char" where
  "to_lower_char c =
     (if 65 \<le> (of_char c :: nat) \<and> (of_char c :: nat) \<le> 90
      then (case c of Char b0 b1 b2 b3 b4 b5 b6 b7 \<Rightarrow> Char b0 b1 b2 b3 b4 True b6 b7)
      else c)"

definition nocase :: "string \<Rightarrow> string" where
  "nocase s = map to_lower_char s"

definition js_lower_char :: "char \<Rightarrow> char" where
  "js_lower_char c =
     (if (65 \<le> (of_char c :: nat) \<and> (of_char c :: nat) \<le> 90) \<or>
         (192 \<le> (of_char c :: nat) \<and> (of_char c :: nat) \<le> 214) \<or>
         (216 \<le> (of_char c :: nat) \<and> (of_char c :: nat) \<le> 222)
      then (case c of Char b0 b1 b2 b3 b4 b5 b6 b7 \<Rightarrow> Char b0 b1 b2 b3 b4 True b6 b7)
      else c)"

definition js_upper_char :: "char \<Rightarrow> string" where
  "js_upper_char c =
     (if (97 \<le> (of_char c :: nat) \<and> (of_char c :: nat) \<le> 122) \<or>
         (224 \<le> (of_char c :: nat) \<and> (of_char c :: nat) \<le> 246) \<or>
         (248 \<le> (of_char c :: nat) \<and> (of_char c :: nat) \<le> 254)
      then [case c of Char b0 b1 b2 b3 b4 b5 b6 b7 \<Rightarrow> Char b0 b1 b2 b3 b4 False b6 b7]
      else if (of_char c :: nat) = 223 then ''SS''
      else [c])"

definition toLowerCase :: "string \<Rightarrow> string" where
  "toLowerCase s = map js_lower_char s"

definition toUpperCase :: "string \<Rightarrow> string" where
  "toUpperCase s = concat (map js_upper_char s)"

text \<open>
  The white space that \<^verbatim>\<open>trim\<close> and \<^verbatim>\<open>parseInt\<close> strip: the code points
  \<^verbatim>\<open>WhiteSpace\<close> and \<^verbatim>\<open>LineTerminator\<close> of the language, which are the tab, the
  line feed, the vertical tab, the form feed, the carriage return, the space,
  \<^verbatim>\<open>U+00A0\<close>, \<^verbatim>\<open>U+1680\<close>, \<^verbatim>\<open>U+2000\<close> to \<^verbatim>\<open>U+200A\<close>, \<^verbatim>\<open>U+2028\<close>, \<^verbatim>\<open>U+2029\<close>, \<^verbatim>\<open>U+202F\<close>,
  \<^verbatim>\<open>U+205F\<close>, \<^verbatim>\<open>U+3000\<close> and \<^verbatim>\<open>U+FEFF\<close>.
\<close>

definition js_space :: "nat \<Rightarrow> bool" where
  "js_space n =
     ((9 \<le> n \<and> n \<le> 13) \<or> n = 32 \<or> n = 160 \<or> n = 5760 \<or> (8192 \<le> n \<and> n \<le> 8202) \<or>
      n = 8232 \<or> n = 8233 \<or> n = 8239 \<or> n = 8287 \<or> n = 12288 \<or> n = 65279)"

definition is_space :: "char \<Rightarrow> bool" where
  "is_space c = js_space (of_char c)"

definition trim :: "string \<Rightarrow> string" where
  "trim s = rev (dropWhile is_space (rev (dropWhile is_space s)))"

definition trim_units :: "nat list \<Rightarrow> nat list" where
  "trim_units s = rev (dropWhile js_space (rev (dropWhile js_space s)))"

text \<open>\<^verbatim>\<open>s.split(d)\<close> for a one-character separator: never the empty list.\<close>

fun split_on :: "char \<Rightarrow> string \<Rightarrow> string list" where
  "split_on d [] = [[]]"
| "split_on d (c # cs) =
     (if c = d then [] # split_on d cs
      else (case split_on d cs of [] \<Rightarrow> [[c]] | w # ws \<Rightarrow> (c # w) # ws))"

fun join_with :: "string \<Rightarrow> string list \<Rightarrow> string" where
  "join_with sep [] = []"
| "join_with sep [x] = x"
| "join_with sep (x # y # ys) = x @ sep @ join_with sep (y # ys)"

text \<open>\<^verbatim>\<open>s.indexOf(m)\<close> and \<^verbatim>\<open>s.lastIndexOf(c)\<close>; \<open>None\<close> stands for \<open>-1\<close>.\<close>

fun indexOf :: "string \<Rightarrow> string \<Rightarrow> nat option" where
  "indexOf m [] = (if m = [] then Some 0 else None)"
| "indexOf m (c # cs) =
     (if prefix m (c # cs) then Some 0 else map_option Suc (indexOf m cs))"

definition str_includes :: "string \<Rightarrow> string \<Rightarrow> bool" where
  "str_includes s m = (indexOf m s \<noteq> None)"

fun lastIndexOf :: "char \<Rightarrow> string \<Rightarrow> nat option" where
  "lastIndexOf d [] = None"
| "lastIndexOf d (c # cs) =
     (case lastIndexOf d cs of
        Some i \<Rightarrow> Some (Suc i)
      | None \<Rightarrow> if c = d then Some 0 else None)"

section \<open>The path module (POSIX)\<close>

text \<open>
  An absolute path, as \<^verbatim>\<open>path.resolve\<close> and \<^verbatim>\<open>path.join\<close> return it, is the list
  of its segments; the root-relative paths of the index are strings, as the
  code slices and matches them.
\<close>

definition norm_step :: "string list \<Rightarrow> string \<Rightarrow> string list" where
  "norm_step acc seg =
     (if seg = [] \<or> seg = ''.'' then acc
      else if seg = ''..'' then butlast acc
      else acc @ [seg])"

definition path_resolve :: "string list \<Rightarrow> string \<Rightarrow> string list" where
  "path_resolve cwd p =
     foldl norm_step (if prefix ''/'' p then [] else cwd) (split_on CHR ''/'' p)"

definition path_join :: "string list \<Rightarrow> string \<Rightarrow> string list" where
  "path_join dir child = foldl norm_step dir (split_on CHR ''/'' child)"

definition abs_string :: "string list \<Rightarrow> string" where
  "abs_string segs = ''/'' @ join_with ''/'' segs"

fun strip_common :: "'a list \<Rightarrow> 'a list \<Rightarrow> 'a list \<times> 'a list" where
  "strip_common (x # xs) (y # ys) =
     (if x = y then strip_common xs ys else (x # xs, y # ys))"
| "strip_common xs ys = (xs, ys)"

definition path_relative :: "string list \<Rightarrow> string list \<Rightarrow> string" where
  "path_relative from to =
     (case strip_common from to of
        (f, t) \<Rightarrow> join_with ''/'' (replicate (length f) ''..'' @ t))"

definition basename :: "string \<Rightarrow> string" where
  "basename p =
     (case filter (\<lambda>s. s \<noteq> []) (split_on CHR ''/'' p) of [] \<Rightarrow> [] | s # ss \<Rightarrow> last (s # ss))"

definition extname :: "string \<Rightarrow> string" where
  "extname p =
     (let b = basename p in
      case lastIndexOf CHR ''.'' b of
        None \<Rightarrow> []
      | Some i \<Rightarrow> if i = 0 \<or> b = ''..'' then [] else drop i b)"

section \<open>Path normalizer\<close>

definition normalizeRelative :: "string list \<Rightarrow> string list \<Rightarrow> string" where
  "normalizeRelative START_PATH absolutePath =
     (let relative = path_relative START_PATH absolutePath in
      if relative = [] then ''/'' else relative)"

definition absoluteFromRelative :: "string list \<Rightarrow> string \<Rightarrow> string list" where
  "absoluteFromRelative START_PATH relativePath =
     (if relativePath = ''/'' \<or> relativePath = [] then START_PATH
      else foldl norm_step START_PATH (split_on CHR ''/'' relativePath))"

definition parentOf :: "string \<Rightarrow> string option" where
  "parentOf relativePath =
     (if relativePath = ''/'' \<or> relativePath = [] then None
      else (case lastIndexOf CHR ''/'' relativePath of
              None \<Rightarrow> Some ''/''
            | Some idx \<Rightarrow> if idx = 0 then Some ''/'' else Some (take idx relativePath)))"

definition depthOf :: "string \<Rightarrow> nat" where
  "depthOf relativePath =
     (if relativePath = ''/'' \<or> relativePath = [] then 0
      else length (split_on CHR ''/'' relativePath))"

section \<open>Entries, tags and the store\<close>

datatype entry_type = File | Directory

record stats =
  isDirectory :: bool
  st_size :: int
  mtimeMs :: rat

record entry =
  path :: string
  name :: string
  parent_path :: "string option"
  etype :: entry_type
  esize :: "int option"
  mtime :: int
  extension :: string
  depth :: nat

definition strip_dot :: "string \<Rightarrow> string" where
  "strip_dot s = (case s of [] \<Rightarrow> [] | c # cs \<Rightarrow> if c = CHR ''.'' then cs else s)"

text \<open>\<^verbatim>\<open>Math.round\<close>: the nearest integer, a half rounded up.\<close>

definition Math_round :: "rat \<Rightarrow> int" where
  "Math_round x = \<lfloor>x + 1 / 2\<rfloor>"

text \<open>\<open>date_now\<close> is what \<^verbatim>\<open>Date.now()\<close> returns when the entry is built.\<close>

definition entryFromStats :: "string list \<Rightarrow> int \<Rightarrow> string \<Rightarrow> stats \<Rightarrow> entry" where
  "entryFromStats START_PATH date_now relativePath st =
     (let ty = (if isDirectory st then Directory else File) in
      \<lparr> path = relativePath,
        name = (if relativePath = ''/''
                then (case START_PATH of [] \<Rightarrow> [] | s # ss \<Rightarrow> last (s # ss))
                else basename relativePath),
        parent_path = parentOf relativePath,
        etype = ty,
        esize = (if ty = File then Some (st_size st) else None),
        mtime = (if mtimeMs st \<noteq> 0 then Math_round (mtimeMs st) else date_now),
        extension = (if ty = File then toLowerCase (strip_dot (extname relativePath)) else []),
        depth = depthOf relativePath \<rparr>)"

record tag =
  entry_path :: string
  tkey :: string
  tvalue :: string

record remote =
  rname :: string
  fetchUrl :: "string option"
  pushUrl :: "string option"

datatype jsnum = NaN | Infinity | Finite int

record git_row =
  g_entry_path :: string
  detected_at :: int
  current_branch :: "string option"
  commit_count :: "jsnum option"
  branch_count :: "nat option"
  remotes :: "remote list"

datatype watcher_mode = Native | Polling

text \<open>
  A mode switch in flight is suspended at one of its two awaits: closing the
  previous watcher, or adding the start path to the new one.
\<close>

datatype switch_phase = Closing watcher_mode | Adding watcher_mode

text \<open>
  What a call of \<^verbatim>\<open>switchWatcherMode\<close> hands back: the promise of an async
  function that returned at once, the promise of the switch in flight, or the
  promise of the switch that the call has started. Two callers wait for such a
  promise: bootstrap, and the handler of a watcher error with its
  \<^verbatim>\<open>catch\<close>.
\<close>

datatype switch_result = Returned_at_once | Switch_in_flight | Switch_started

datatype waiter = Bootstrap | ErrorHandler

datatype message =
  EntryAdded string | EntryUpdated string | EntryRemoved string
| TagAdded string string string | TagRemoved string string string

text \<open>
  The three tables (rows in insertion order), the session-scoped set of
  ignored paths, the flags of the git collector, the search caches, the
  messages broadcast so far, and the watcher: the current instance (by
  identity), its mode, the switch in flight with the callers that wait for
  it, the lines that the watcher code and a failed bootstrap write to the
  console (the first argument of each call), and whether the process has
  exited.
\<close>

record state =
  entries :: "entry list"
  tags :: "tag list"
  git_metadata :: "git_row list"
  unsupportedPaths :: "string set"
  gitBinaryUnavailable :: bool
  gitUnavailableLogged :: bool
  entryCache :: "entry list"
  tagCache :: "tag list"
  broadcasts :: "message list"
  watcher :: "nat option"
  watcherMode :: watcher_mode
  watcherSwitchPromise :: "switch_phase option"
  switchWaiters :: "waiter list"
  watcherErrorDiagnosticsLogged :: bool
  next_watcher :: nat
  console :: "string list"
  exited :: bool

definition empty_state :: state where
  "empty_state =
     \<lparr> entries = [], tags = [], git_metadata = [], unsupportedPaths = {},
       gitBinaryUnavailable = False, gitUnavailableLogged = False,
       entryCache = [], tagCache = [], broadcasts = [],
       watcher = None, watcherMode = Native, watcherSwitchPromise = None,
       switchWaiters = [], watcherErrorDiagnosticsLogged = False, next_watcher = 0,
       console = [], exited = False \<rparr>"

subsection \<open>Prepared statements\<close>

text \<open>
  \<^verbatim>\<open>LIKE\<close> as SQLite evaluates it with no \<^verbatim>\<open>ESCAPE\<close>: \<^verbatim>\<open>%\<close> matches any run of
  characters, \<^verbatim>\<open>_\<close> any one character, and letters match without regard to
  case.
\<close>

fun sql_like :: "string \<Rightarrow> string \<Rightarrow> bool" where
  "sql_like [] [] = True"
| "sql_like [] (c # cs) = False"
| "sql_like (p # ps) [] = (p = CHR ''%'' \<and> sql_like ps [])"
| "sql_like (p # ps) (c # cs) =
     (if p = CHR ''%'' then sql_like ps (c # cs) \<or> sql_like (p # ps) cs
      else (p = CHR ''_'' \<or> to_lower_char p = to_lower_char c) \<and> sql_like ps cs)"

definition upsertEntry :: "entry \<Rightarrow> state \<Rightarrow> state" where
  "upsertEntry e s =
     s\<lparr>entries :=
         (if path e \<in> path ` set (entries s)
          then map (\<lambda>r. if path r = path e then e else r) (entries s)
          else entries s @ [e])\<rparr>"

text \<open>
  Deleting rows of \<^verbatim>\<open>entries\<close> deletes the rows of \<^verbatim>\<open>tags\<close> and
  \<^verbatim>\<open>git_metadata\<close> that reference them (\<^verbatim>\<open>ON DELETE CASCADE\<close>).
\<close>

definition deleteEntriesWhere :: "(string \<Rightarrow> bool) \<Rightarrow> state \<Rightarrow> state" where
  "deleteEntriesWhere P s =
     (let gone = map path (filter (\<lambda>r. P (path r)) (entries s)) in
      s\<lparr>entries := filter (\<lambda>r. \<not> P (path r)) (entries s),
        tags := filter (\<lambda>t. entry_path t \<notin> set gone) (tags s),
        git_metadata := filter (\<lambda>g. g_entry_path g \<notin> set gone) (git_metadata s)\<rparr>)"

definition removeEntry :: "string \<Rightarrow> state \<Rightarrow> state" where
  "removeEntry p s = deleteEntriesWhere (\<lambda>q. q = p) s"

definition removeEntriesUnder :: "string \<Rightarrow> state \<Rightarrow> state" where
  "removeEntriesUnder pat s = deleteEntriesWhere (sql_like pat) s"

definition singleEntry :: "string \<Rightarrow> state \<Rightarrow> entry option" where
  "singleEntry p s = find (\<lambda>r. path r = p) (entries s)"

definition allEntries :: "state \<Rightarrow> entry list" where
  "allEntries s = sort_key (\<lambda>r. (depth r, nocase (name r))) (entries s)"

definition entryTags :: "string \<Rightarrow> state \<Rightarrow> (string \<times> string) list" where
  "entryTags p s =
     sort (map (\<lambda>t. (tkey t, tvalue t)) (filter (\<lambda>t. entry_path t = p) (tags s)))"

datatype sql_error = ForeignKeyViolation

text \<open>\<^verbatim>\<open>INSERT OR IGNORE\<close>: a row that is already there is kept as it is.\<close>

definition addTag :: "string \<Rightarrow> string \<Rightarrow> string \<Rightarrow> state \<Rightarrow> sql_error + state" where
  "addTag p k v s =
     (let row = \<lparr> entry_path = p, tkey = k, tvalue = v \<rparr> in
      if row \<in> set (tags s) then Inr s
      else if p \<notin> path ` set (entries s) then Inl ForeignKeyViolation
      else Inr (s\<lparr>tags := tags s @ [row]\<rparr>))"

definition deleteTag :: "string \<Rightarrow> string \<Rightarrow> string \<Rightarrow> state \<Rightarrow> state" where
  "deleteTag p k v s =
     s\<lparr>tags := filter (\<lambda>t. \<not> (entry_path t = p \<and> tkey t = k \<and> tvalue t = v)) (tags s)\<rparr>"

definition pathsForTag :: "string \<Rightarrow> string \<Rightarrow> state \<Rightarrow> string list" where
  "pathsForTag k v s = map entry_path (filter (\<lambda>t. tkey t = k \<and> tvalue t = v) (tags s))"

definition deleteTagsForEntry :: "string \<Rightarrow> state \<Rightarrow> state" where
  "deleteTagsForEntry p s = s\<lparr>tags := filter (\<lambda>t. entry_path t \<noteq> p) (tags s)\<rparr>"

definition deleteTagsUnder :: "string \<Rightarrow> state \<Rightarrow> state" where
  "deleteTagsUnder pat s = s\<lparr>tags := filter (\<lambda>t. \<not> sql_like pat (entry_path t)) (tags s)\<rparr>"

definition deleteGitMetadata :: "string \<Rightarrow> state \<Rightarrow> state" where
  "deleteGitMetadata p s =
     s\<lparr>git_metadata := filter (\<lambda>g. g_entry_path g \<noteq> p) (git_metadata s)\<rparr>"

definition upsertGitMetadata :: "git_row \<Rightarrow> state \<Rightarrow> sql_error + state" where
  "upsertGitMetadata g s =
     (if g_entry_path g \<in> g_entry_path ` set (git_metadata s)
      then Inr (s\<lparr>git_metadata :=
                   map (\<lambda>r. if g_entry_path r = g_entry_path g then g else r) (git_metadata s)\<rparr>)
      else if g_entry_path g \<notin> path ` set (entries s) then Inl ForeignKeyViolation
      else Inr (s\<lparr>git_metadata := git_metadata s @ [g]\<rparr>))"

definition refreshCaches :: "state \<Rightarrow> state" where
  "refreshCaches s = s\<lparr>entryCache := allEntries s, tagCache := tags s\<rparr>"

definition broadcast :: "message \<Rightarrow> state \<Rightarrow> state" where
  "broadcast m s = s\<lparr>broadcasts := broadcasts s @ [m]\<rparr>"


section \<open>The world outside: filesystem, git and the clock\<close>

datatype stat_result = StatError string | Stats stats

record exec_error =
  err_code :: string
  err_stderr :: string
  err_stdout :: string
  err_message :: string

datatype exec_result = ExecOk string | ExecError exec_error

text \<open>
  What the process observes during one operation: \<^verbatim>\<open>fsp.stat\<close> and
  \<^verbatim>\<open>fsp.readdir\<close> by absolute path (\<open>None\<close>: readdir throws), the git binary by
  arguments and working directory, \<^verbatim>\<open>Date.now()\<close> by the relative path being
  processed, and the working directory of the process.
\<close>

record world =
  fs_stat :: "string list \<Rightarrow> stat_result"
  fs_readdir :: "string list \<Rightarrow> string list option"
  git_exec :: "string list \<Rightarrow> string list \<Rightarrow> exec_result"
  date_now :: "string \<Rightarrow> int"
  process_cwd :: "string list"

definition UNSUPPORTED_FS_CODES :: "string set" where
  "UNSUPPORTED_FS_CODES = {''ENOTSUP'', ''EOPNOTSUPP'', ''EPERM'', ''EACCES'', ''ENAMETOOLONG''}"

section \<open>Ignored paths\<close>

definition markPathUnsupported :: "string list \<Rightarrow> string list \<Rightarrow> string set \<Rightarrow> string set" where
  "markPathUnsupported START_PATH absolutePath unsupported =
     (let relative = normalizeRelative START_PATH absolutePath in
      if relative \<noteq> [] \<and> relative \<noteq> ''/'' \<and> \<not> prefix ''..'' relative
      then insert relative (insert (abs_string absolutePath) unsupported)
      else insert (abs_string absolutePath) unsupported)"

definition shouldIgnorePath :: "string list \<Rightarrow> string set \<Rightarrow> string list \<Rightarrow> bool" where
  "shouldIgnorePath START_PATH unsupported absolutePath =
     (if abs_string absolutePath \<in> unsupported then True
      else let relative = normalizeRelative START_PATH absolutePath in
        if relative \<in> unsupported then True
        else if prefix ''..'' relative then False
        else toLowerCase (extname relative) = ''.sock'')"

section \<open>Git metadata collector\<close>

text \<open>
  \<^verbatim>\<open>parseInt(s, 10)\<close>: leading white space, a sign, then the longest run of
  digits; no digit gives \<^verbatim>\<open>NaN\<close>, a value too large for a double an infinity.
  It is given for a string of code units, and for a string of characters
  through the code units of its characters.
\<close>

definition is_digit :: "nat \<Rightarrow> bool" where
  "is_digit n = (48 \<le> n \<and> n \<le> 57)"

definition digit_value :: "nat \<Rightarrow> int" where
  "digit_value n = int n - 48"

definition double_overflow :: int where
  "double_overflow = 2 ^ 1024 - 2 ^ 970"

definition parseInt10_units :: "nat list \<Rightarrow> jsnum" where
  "parseInt10_units s =
     (let t = dropWhile js_space s;
          neg = (case t of [] \<Rightarrow> False | c # r \<Rightarrow> c = 45);
          u = (case t of [] \<Rightarrow> [] | c # r \<Rightarrow> if c = 45 \<or> c = 43 then r else t);
          ds = takeWhile is_digit u;
          n = foldl (\<lambda>a c. 10 * a + digit_value c) 0 ds
      in if ds = [] then NaN
         else if double_overflow \<le> n then Infinity
         else Finite (if neg then - n else n))"

definition parseInt10 :: "string \<Rightarrow> jsnum" where
  "parseInt10 s = parseInt10_units (map of_char s)"

datatype thrown = GIT_UNAVAILABLE | Git_failed exec_error | Fs_failed string | Sql_failed sql_error

definition isNotGitRepositoryError :: "exec_error \<Rightarrow> bool" where
  "isNotGitRepositoryError err =
     (let targets = toLowerCase (err_stderr err @ '' '' @ err_stdout err @ '' '' @ err_message err)
      in str_includes targets ''not a git repository'' \<or> str_includes targets ''invalid gitfile format'')"

definition runGitCommand ::
  "world \<Rightarrow> string list \<Rightarrow> string list \<Rightarrow> state \<Rightarrow> (thrown + string) \<times> state" where
  "runGitCommand w args cwd s =
     (if gitBinaryUnavailable s then (Inl GIT_UNAVAILABLE, s)
      else (case git_exec w args cwd of
              ExecOk out \<Rightarrow> (Inr out, s\<lparr>gitBinaryUnavailable := False\<rparr>)
            | ExecError err \<Rightarrow>
                if err_code err = ''ENOENT''
                then (Inl GIT_UNAVAILABLE,
                      s\<lparr>gitBinaryUnavailable := True, gitUnavailableLogged := True\<rparr>)
                else (Inl (Git_failed err),
                      if \<not> gitUnavailableLogged s \<and> gitBinaryUnavailable s
                      then s\<lparr>gitUnavailableLogged := True\<rparr> else s)))"

fun split_where :: "(char \<Rightarrow> bool) \<Rightarrow> string \<Rightarrow> string list" where
  "split_where P [] = [[]]"
| "split_where P (c # cs) =
     (if P c then [] # split_where P cs
      else (case split_where P cs of [] \<Rightarrow> [[c]] | w # ws \<Rightarrow> (c # w) # ws))"

definition falsy :: "string option \<Rightarrow> bool" where
  "falsy v = (v = None \<or> v = Some [])"

definition noteRemote :: "string list \<Rightarrow> remote list \<Rightarrow> remote list" where
  "noteRemote parts rs =
     (case parts of
        nm # url # rest \<Rightarrow>
          (let ty = (case rest of [] \<Rightarrow> None | t # _ \<Rightarrow> Some t);
               rs1 = (if nm \<in> rname ` set rs then rs
                      else rs @ [\<lparr> rname = nm, fetchUrl = None, pushUrl = None \<rparr>])
           in map (\<lambda>r. if rname r \<noteq> nm then r
                        else if ty = Some ''(fetch)'' then r\<lparr>fetchUrl := Some url\<rparr>
                        else if ty = Some ''(push)'' then r\<lparr>pushUrl := Some url\<rparr>
                        else r\<lparr>fetchUrl := (if falsy (fetchUrl r) then Some url else fetchUrl r),
                               pushUrl := (if falsy (pushUrl r) then Some url else pushUrl r)\<rparr>) rs1)
      | _ \<Rightarrow> rs)"

definition parseGitRemoteOutput :: "string \<Rightarrow> remote list" where
  "parseGitRemoteOutput output =
     (if output = [] then []
      else map (\<lambda>r. \<lparr> rname = rname r,
                      fetchUrl = (if falsy (fetchUrl r) then None else fetchUrl r),
                      pushUrl = (if \<not> falsy (pushUrl r) then pushUrl r
                                 else if falsy (fetchUrl r) then None else fetchUrl r) \<rparr>)
             (foldl (\<lambda>rs rawLine.
                       let line = trim rawLine in
                       if line = [] then rs
                       else noteRemote (filter (\<lambda>p. p \<noteq> []) (split_where is_space line)) rs)
                [] (split_on CHR 0x0A output)))"

text \<open>
  The part of \<^verbatim>\<open>gatherGitMetadata\<close> after the repository root is accepted:
  branch, commit count, branch count and remotes, each tolerant of its own
  failure, then the upsert. Only an unavailable binary and the store throw.
\<close>

definition gitCurrentBranch ::
  "world \<Rightarrow> string list \<Rightarrow> state \<Rightarrow> (thrown + string option) \<times> state" where
  "gitCurrentBranch w absolutePath s =
     (case runGitCommand w [''symbolic-ref'', ''--quiet'', ''--short'', ''HEAD''] absolutePath s of
        (Inr out, s1) \<Rightarrow> (Inr (Some (trim out)), s1)
      | (Inl GIT_UNAVAILABLE, s1) \<Rightarrow> (Inl GIT_UNAVAILABLE, s1)
      | (Inl (Git_failed err), s1) \<Rightarrow>
          if isNotGitRepositoryError err then (Inr None, s1)
          else (case runGitCommand w [''rev-parse'', ''--short'', ''HEAD''] absolutePath s1 of
                  (Inr out, s2) \<Rightarrow> (Inr (if trim out = [] then None else Some (trim out)), s2)
                | (Inl GIT_UNAVAILABLE, s2) \<Rightarrow> (Inl GIT_UNAVAILABLE, s2)
                | (Inl _, s2) \<Rightarrow> (Inr None, s2))
      | (Inl _, s1) \<Rightarrow> (Inr None, s1))"

definition gitOptional ::
  "world \<Rightarrow> string list \<Rightarrow> string list \<Rightarrow> state \<Rightarrow> (thrown + string option) \<times> state" where
  "gitOptional w args absolutePath s =
     (case runGitCommand w args absolutePath s of
        (Inr out, s1) \<Rightarrow> (Inr (Some out), s1)
      | (Inl GIT_UNAVAILABLE, s1) \<Rightarrow> (Inl GIT_UNAVAILABLE, s1)
      | (Inl _, s1) \<Rightarrow> (Inr None, s1))"

definition collectGitFacts ::
  "world \<Rightarrow> string list \<Rightarrow> string \<Rightarrow> state \<Rightarrow> (thrown + git_row option) \<times> state" where
  "collectGitFacts w absolutePath relativePath s =
     (case gitCurrentBranch w absolutePath s of
        (Inl e, s1) \<Rightarrow> (Inl e, s1)
      | (Inr currentBranch, s1) \<Rightarrow>
     (case gitOptional w [''rev-list'', ''--all'', ''--count''] absolutePath s1 of
        (Inl e, s2) \<Rightarrow> (Inl e, s2)
      | (Inr countOut, s2) \<Rightarrow>
     (case gitOptional w [''branch'', ''--format=%(refname:short)''] absolutePath s2 of
        (Inl e, s3) \<Rightarrow> (Inl e, s3)
      | (Inr branchOut, s3) \<Rightarrow>
     (case gitOptional w [''remote'', ''-v''] absolutePath s3 of
        (Inl e, s4) \<Rightarrow> (Inl e, s4)
      | (Inr remoteOut, s4) \<Rightarrow>
          (let row = \<lparr> g_entry_path = relativePath,
                       detected_at = date_now w relativePath,
                       current_branch = (if falsy currentBranch then None else currentBranch),
                       commit_count =
                         (case countOut of
                            None \<Rightarrow> None
                          | Some out \<Rightarrow> (case parseInt10 (trim out) of NaN \<Rightarrow> None | n \<Rightarrow> Some n)),
                       branch_count =
                         (case branchOut of
                            None \<Rightarrow> None
                          | Some out \<Rightarrow>
                              Some (length (filter (\<lambda>l. l \<noteq> []) (map trim (split_on CHR 0x0A out))))),
                       remotes = (case remoteOut of None \<Rightarrow> [] | Some out \<Rightarrow> parseGitRemoteOutput out) \<rparr>
           in (case upsertGitMetadata row s4 of
                 Inl e \<Rightarrow> (Inl (Sql_failed e), s4)
               | Inr s5 \<Rightarrow> (Inr (Some row), s5)))))))"

definition gatherGitMetadata ::
  "world \<Rightarrow> string list \<Rightarrow> string list \<Rightarrow> string \<Rightarrow> state \<Rightarrow> (thrown + git_row option) \<times> state" where
  "gatherGitMetadata w START_PATH absolutePath relativePath s =
     (if relativePath = [] then (Inr None, s)
      else if relativePath \<noteq> ''/'' \<and> basename relativePath = ''.git'' then (Inr None, s)
      else (case fs_stat w absolutePath of
        StatError c \<Rightarrow>
          if c = ''ENOENT'' then (Inr None, deleteGitMetadata relativePath s)
          else (Inl (Fs_failed c), s)
      | Stats dirStats \<Rightarrow>
          if \<not> isDirectory dirStats then (Inr None, deleteGitMetadata relativePath s)
          else (case fs_stat w (path_join absolutePath ''.git'') of
            StatError c \<Rightarrow>
              if c = ''ENOENT'' \<or> c = ''ENOTDIR'' then (Inr None, deleteGitMetadata relativePath s)
              else if c \<in> UNSUPPORTED_FS_CODES then (Inr None, s)
              else (Inl (Fs_failed c), s)
          | Stats _ \<Rightarrow>
              (case runGitCommand w [''rev-parse'', ''--show-toplevel''] absolutePath s of
                 (Inl GIT_UNAVAILABLE, s1) \<Rightarrow> (Inl GIT_UNAVAILABLE, s1)
               | (Inl (Git_failed err), s1) \<Rightarrow>
                   if isNotGitRepositoryError err
                   then (Inr None, deleteGitMetadata relativePath s1)
                   else (Inr None, s1)
               | (Inl _, s1) \<Rightarrow> (Inr None, s1)
               | (Inr out, s1) \<Rightarrow>
                   (let repoRelative =
                          normalizeRelative START_PATH (path_resolve (process_cwd w) (trim out))
                    in if prefix ''..'' repoRelative
                       then (Inr None, deleteGitMetadata relativePath s1)
                       else if repoRelative \<noteq> relativePath
                       then (Inr None, deleteGitMetadata relativePath s1)
                       else collectGitFacts w absolutePath relativePath s1)))))"

text \<open>
  Calls are made one after the other here, so no update is pending when one
  starts; what \<^verbatim>\<open>gatherGitMetadata\<close> throws is swallowed.
\<close>

definition updateGitMetadataForDirectory ::
  "world \<Rightarrow> string list \<Rightarrow> string list \<Rightarrow> string \<Rightarrow> state \<Rightarrow> state" where
  "updateGitMetadataForDirectory w START_PATH absolutePath relativePath s =
     (let relPath = (if relativePath = [] then normalizeRelative START_PATH absolutePath
                     else relativePath)
      in if relPath = [] then s
         else if relPath \<noteq> ''/'' \<and> basename relPath = ''.git'' then s
         else snd (gatherGitMetadata w START_PATH absolutePath relPath s))"

definition repoPathFromGitInternal :: "string \<Rightarrow> string option" where
  "repoPathFromGitInternal relativePath =
     (if relativePath = [] then None
      else if relativePath = ''.git'' \<or> prefix ''.git/'' relativePath then Some ''/''
      else (case indexOf ''/.git'' relativePath of
              None \<Rightarrow> None
            | Some idx \<Rightarrow>
                (let suffix = drop (idx + length ''/.git'') relativePath in
                 if suffix \<noteq> [] \<and> hd suffix \<noteq> CHR ''/'' then None
                 else (let candidate = take idx relativePath in
                       Some (if candidate = [] then ''/'' else candidate)))))"

definition refreshGitMetadataForPath :: "world \<Rightarrow> string list \<Rightarrow> string \<Rightarrow> state \<Rightarrow> state" where
  "refreshGitMetadataForPath w START_PATH relativePath s =
     (case repoPathFromGitInternal relativePath of
        None \<Rightarrow> s
      | Some repoPath \<Rightarrow>
          updateGitMetadataForDirectory w START_PATH
            (absoluteFromRelative START_PATH repoPath) repoPath s)"


section \<open>Scanner\<close>

text \<open>
  \<open>walk\<close> is the recursive closure of \<^verbatim>\<open>scanInitialTree\<close>; its first number
  bounds the depth of the recursion, and \<open>None\<close> says the bound was reached.
\<close>

fun walk ::
    "world \<Rightarrow> string list \<Rightarrow> nat \<Rightarrow> string list \<Rightarrow> string set \<times> state
      \<Rightarrow> (string set \<times> state) option"
  and walk_children ::
    "world \<Rightarrow> string list \<Rightarrow> nat \<Rightarrow> string list \<Rightarrow> string list \<Rightarrow> string set \<times> state
      \<Rightarrow> (string set \<times> state) option"
where
  "walk w START_PATH 0 absolutePath (seen, s) = None"
| "walk w START_PATH (Suc n) absolutePath (seen, s) =
     (if shouldIgnorePath START_PATH (unsupportedPaths s) absolutePath then Some (seen, s)
      else (case fs_stat w absolutePath of
        StatError c \<Rightarrow>
          Some (seen,
            if c \<in> UNSUPPORTED_FS_CODES
            then s\<lparr>unsupportedPaths :=
                     markPathUnsupported START_PATH absolutePath (unsupportedPaths s)\<rparr>
            else s)
      | Stats st \<Rightarrow>
          (let relativePath = normalizeRelative START_PATH absolutePath in
           if relativePath \<in> seen then Some (seen, s)
           else
             (let s1 = upsertEntry
                         (entryFromStats START_PATH (date_now w relativePath) relativePath st) s;
                  s2 = (if isDirectory st
                        then updateGitMetadataForDirectory w START_PATH absolutePath relativePath s1
                        else refreshGitMetadataForPath w START_PATH relativePath s1)
              in if isDirectory st
                 then (case fs_readdir w absolutePath of
                         None \<Rightarrow> Some (insert relativePath seen, s2)
                       | Some children \<Rightarrow>
                           walk_children w START_PATH n absolutePath children
                             (insert relativePath seen, s2))
                 else Some (insert relativePath seen, s2)))))"
| "walk_children w START_PATH n absolutePath [] acc = Some acc"
| "walk_children w START_PATH n absolutePath (child # rest) acc =
     (case walk w START_PATH n (path_join absolutePath child) acc of
        None \<Rightarrow> None
      | Some acc' \<Rightarrow> walk_children w START_PATH n absolutePath rest acc')"

definition scanInitialTree :: "world \<Rightarrow> string list \<Rightarrow> nat \<Rightarrow> state \<Rightarrow> state option" where
  "scanInitialTree w START_PATH fuel s = map_option snd (walk w START_PATH fuel START_PATH ({}, s))"

section \<open>Reconciling watcher events\<close>

definition indexPath :: "world \<Rightarrow> string list \<Rightarrow> string list \<Rightarrow> state \<Rightarrow> bool \<times> state" where
  "indexPath w START_PATH absolutePath s =
     (if shouldIgnorePath START_PATH (unsupportedPaths s) absolutePath then (False, s)
      else (case fs_stat w absolutePath of
        StatError c \<Rightarrow>
          (False,
            if c \<in> UNSUPPORTED_FS_CODES
            then s\<lparr>unsupportedPaths :=
                     markPathUnsupported START_PATH absolutePath (unsupportedPaths s)\<rparr>
            else s)
      | Stats st \<Rightarrow>
          (let relativePath = normalizeRelative START_PATH absolutePath;
               s1 = upsertEntry
                      (entryFromStats START_PATH (date_now w relativePath) relativePath st) s
           in if isDirectory st
              then (True, updateGitMetadataForDirectory w START_PATH absolutePath relativePath s1)
              else (True, refreshGitMetadataForPath w START_PATH relativePath
                            (deleteGitMetadata relativePath s1)))))"

text \<open>The four deletes of the branch transaction, in the order they run.\<close>

definition deleteBranchRows :: "string \<Rightarrow> state \<Rightarrow> state" where
  "deleteBranchRows relativePath s =
     (let pattern = relativePath @ ''/%'' in
      removeEntriesUnder pattern
        (removeEntry relativePath
          (deleteTagsUnder pattern
            (deleteTagsForEntry relativePath s))))"

definition deleteEntryBranch :: "world \<Rightarrow> string list \<Rightarrow> string \<Rightarrow> state \<Rightarrow> state" where
  "deleteEntryBranch w START_PATH relativePath s =
     (if relativePath = ''/'' \<or> relativePath = [] then s
      else refreshGitMetadataForPath w START_PATH relativePath (deleteBranchRows relativePath s))"

definition removePath :: "world \<Rightarrow> string list \<Rightarrow> string \<Rightarrow> state \<Rightarrow> state" where
  "removePath w START_PATH relativePath s =
     refreshGitMetadataForPath w START_PATH relativePath (deleteBranchRows relativePath s)"

datatype fs_event =
  Add "string list" | Change "string list" | Unlink "string list"
| AddDir "string list" | UnlinkDir "string list"

text \<open>The listeners of \<^verbatim>\<open>registerWatcherEvents\<close>, for an event of the current watcher.\<close>

fun onEvent :: "world \<Rightarrow> string list \<Rightarrow> fs_event \<Rightarrow> state \<Rightarrow> state" where
  "onEvent w START_PATH (Add filePath) s =
     (case indexPath w START_PATH filePath s of
        (False, s1) \<Rightarrow> s1
      | (True, s1) \<Rightarrow>
          broadcast (EntryAdded (normalizeRelative START_PATH filePath)) (refreshCaches s1))"
| "onEvent w START_PATH (Change filePath) s =
     (case indexPath w START_PATH filePath s of
        (False, s1) \<Rightarrow> s1
      | (True, s1) \<Rightarrow>
          broadcast (EntryUpdated (normalizeRelative START_PATH filePath)) (refreshCaches s1))"
| "onEvent w START_PATH (Unlink filePath) s =
     (if shouldIgnorePath START_PATH (unsupportedPaths s) filePath then s
      else (let relativePath = normalizeRelative START_PATH filePath in
            broadcast (EntryRemoved relativePath)
              (refreshCaches (removePath w START_PATH relativePath s))))"
| "onEvent w START_PATH (AddDir dirPath) s =
     (case indexPath w START_PATH dirPath s of
        (False, s1) \<Rightarrow> s1
      | (True, s1) \<Rightarrow>
          broadcast (EntryAdded (normalizeRelative START_PATH dirPath)) (refreshCaches s1))"
| "onEvent w START_PATH (UnlinkDir dirPath) s =
     (if shouldIgnorePath START_PATH (unsupportedPaths s) dirPath then s
      else (let relativePath = normalizeRelative START_PATH dirPath in
            broadcast (EntryRemoved relativePath)
              (refreshCaches (deleteEntryBranch w START_PATH relativePath s))))"

section \<open>Search\<close>

record tag_filter =
  fkey :: string
  fvalue :: string

text \<open>\<^verbatim>\<open>new Set(xs)\<close>: the elements of \<open>xs\<close> once each, in the order they first occur.\<close>

definition js_set :: "'a list \<Rightarrow> 'a list" where
  "js_set xs = foldl (\<lambda>acc x. if x \<in> set acc then acc else acc @ [x]) [] xs"

definition filterPathsByTags :: "tag_filter list \<Rightarrow> state \<Rightarrow> string list option" where
  "filterPathsByTags filters s =
     (case map (\<lambda>f. js_set (pathsForTag (fkey f) (fvalue f) s)) filters of
        [] \<Rightarrow> None
      | first # rest \<Rightarrow>
          Some (foldl (\<lambda>acc current. filter (\<lambda>v. v \<in> set current) acc) first rest))"

text \<open>The loop over the fuzzy matches: those outside the target set and those seen are skipped.\<close>

fun collectMatches :: "string list option \<Rightarrow> string set \<Rightarrow> entry list \<Rightarrow> entry list" where
  "collectMatches target seen [] = []"
| "collectMatches target seen (e # rest) =
     (if (case target of None \<Rightarrow> False | Some ps \<Rightarrow> path e \<notin> set ps)
      then collectMatches target seen rest
      else if path e \<in> seen then collectMatches target seen rest
      else e # collectMatches target (insert (path e) seen) rest)"

text \<open>
  \<open>fuseRank q items\<close> is the ranking the fuzzy index returns for \<open>q\<close> with no
  limit; a limit keeps that many from the front. A result is the entry with
  the tags listed for its path.
\<close>

definition gatherSearchResults ::
  "(string \<Rightarrow> entry list \<Rightarrow> entry list) \<Rightarrow> string \<Rightarrow> tag_filter list \<Rightarrow> state
    \<Rightarrow> (entry \<times> (string \<times> string) list) list" where
  "gatherSearchResults fuseRank query tagFilters s =
     (let targetPathsSet = filterPathsByTags tagFilters s;
          candidates = (case targetPathsSet of
                          Some ps \<Rightarrow> filter (\<lambda>e. path e \<in> set ps) (entryCache s)
                        | None \<Rightarrow> entryCache s)
      in if query \<noteq> []
         then map (\<lambda>e. (e, entryTags (path e) s))
                (collectMatches targetPathsSet {} (take 50 (fuseRank query (entryCache s))))
         else map (\<lambda>e. (e, entryTags (path e) s)) (take 50 candidates))"

section \<open>Tag requests\<close>

datatype 'a reply = Reply_error nat string | Reply_json 'a

text \<open>
  \<^verbatim>\<open>POST /api/tags\<close>. A field of the body is absent (\<open>None\<close>) or a string; the
  empty string is falsy like an absent field. What the store throws reaches
  the framework, which answers 500.
\<close>

definition postTag ::
  "string option \<Rightarrow> string option \<Rightarrow> string option \<Rightarrow> state \<Rightarrow> unit reply \<times> state" where
  "postTag relativePath key val s =
     (if falsy relativePath \<or> falsy key \<or> falsy val
      then (Reply_error 400 ''path, key, and value are required'', s)
      else (case singleEntry (the relativePath) s of
              None \<Rightarrow> (Reply_error 404 ''Entry not found'', s)
            | Some entry \<Rightarrow>
                (case addTag (the relativePath) (the key) (the val) s of
                   Inl e \<Rightarrow> (Reply_error 500 ''Internal Server Error'', s)
                 | Inr s1 \<Rightarrow>
                     (Reply_json (),
                      broadcast (TagAdded (the relativePath) (the key) (the val))
                        (refreshCaches s1)))))"

definition deleteTagRequest ::
  "string option \<Rightarrow> string option \<Rightarrow> string option \<Rightarrow> state \<Rightarrow> unit reply \<times> state" where
  "deleteTagRequest relativePath key val s =
     (if falsy relativePath \<or> falsy key \<or> falsy val
      then (Reply_error 400 ''path, key, and value are required'', s)
      else (Reply_json (),
            broadcast (TagRemoved (the relativePath) (the key) (the val))
              (refreshCaches (deleteTag (the relativePath) (the key) (the val) s))))"

text \<open>
  \<^verbatim>\<open>GET /api/tags/search\<close>. The parameters are absent or not a string
  (\<open>None\<close>), or a string of code units. A match is the cached tag with its
  score.
\<close>

definition tagSearchLimit :: "nat list option \<Rightarrow> nat" where
  "tagSearchLimit limitParam =
     (let rawLimit = (case limitParam of Some l \<Rightarrow> parseInt10_units l | None \<Rightarrow> NaN) in
      case rawLimit of Finite n \<Rightarrow> nat (min (max n 1) 100) | _ \<Rightarrow> 20)"

definition tagsSearch ::
  "(nat list \<Rightarrow> tag list \<Rightarrow> (tag \<times> rat) list) \<Rightarrow> nat list option \<Rightarrow> nat list option \<Rightarrow> state
    \<Rightarrow> (tag \<times> rat) list reply" where
  "tagsSearch fuseRank q limitParam s =
     (let query = (case q of Some x \<Rightarrow> trim_units x | None \<Rightarrow> []) in
      if query = [] then Reply_error 400 ''q query parameter required''
      else Reply_json (take (tagSearchLimit limitParam) (fuseRank query (tagCache s))))"

section \<open>Watcher state machine\<close>

record watch_error =
  we_code :: "string option"
  we_message :: "string option"
  we_path :: "string list option"

definition isWatcherLimitError :: "watch_error option \<Rightarrow> bool" where
  "isWatcherLimitError err =
     (case err of
        None \<Rightarrow> False
      | Some e \<Rightarrow>
          (let code = (case we_code e of Some c \<Rightarrow> toUpperCase c | None \<Rightarrow> []) in
           if code = ''EMFILE'' \<or> code = ''ENOSPC'' then True
           else (let message = (case we_message e of Some m \<Rightarrow> toUpperCase m | None \<Rightarrow> [])
                 in str_includes message ''EMFILE'' \<or> str_includes message ''ENOSPC'')))"

definition log :: "string \<Rightarrow> state \<Rightarrow> state" where
  "log line s = s\<lparr>console := console s @ [line]\<rparr>"

text \<open>\<^verbatim>\<open>new chokidar.FSWatcher\<close>, made the current watcher in the given mode.\<close>

definition installWatcher :: "watcher_mode \<Rightarrow> state \<Rightarrow> state" where
  "installWatcher mode s =
     s\<lparr>watcher := Some (next_watcher s), next_watcher := Suc (next_watcher s),
       watcherMode := mode\<rparr>"

text \<open>
  \<^verbatim>\<open>switchWatcherMode\<close> up to its first await, with what it hands back. When
  there is no watcher to close, the new one is installed before the first
  await, which is that of \<^verbatim>\<open>add()\<close>.
\<close>

definition switchWatcherMode :: "watcher_mode \<Rightarrow> state \<Rightarrow> switch_result \<times> state" where
  "switchWatcherMode mode s =
     (if mode = watcherMode s \<and> watcher s \<noteq> None then (Returned_at_once, s)
      else if watcherSwitchPromise s \<noteq> None then (Switch_in_flight, s)
      else (Switch_started,
            case watcher s of
              Some oldWatcher \<Rightarrow> s\<lparr>watcher := None, watcherSwitchPromise := Some (Closing mode)\<rparr>
            | None \<Rightarrow> (installWatcher mode s)\<lparr>watcherSwitchPromise := Some (Adding mode)\<rparr>))"

text \<open>
  A caller that waits for what the call handed back. Nothing can reject the
  promise of a call that returned at once.
\<close>

definition awaitSwitch :: "waiter \<Rightarrow> switch_result \<times> state \<Rightarrow> state" where
  "awaitSwitch who rs =
     (case rs of (r, s) \<Rightarrow>
        if r = Returned_at_once then s else s\<lparr>switchWaiters := switchWaiters s @ [who]\<rparr>)"

text \<open>The rest of the switch: after \<^verbatim>\<open>close()\<close> settles, and after \<^verbatim>\<open>add()\<close> settles.\<close>

definition closeSettled :: "bool \<Rightarrow> state \<Rightarrow> state" where
  "closeSettled ok s =
     (case watcherSwitchPromise s of
        Some (Closing mode) \<Rightarrow>
          (installWatcher mode (if ok then s else log ''Failed to close previous watcher'' s))
            \<lparr>watcherSwitchPromise := Some (Adding mode)\<rparr>
      | _ \<Rightarrow> s)"

text \<open>
  A switch that fails is rejected to the callers that wait for it: the
  \<^verbatim>\<open>catch\<close> of each error handler writes a line, and bootstrap writes one and
  ends the process. The handlers run first, their promises being one step
  nearer to the switch than the one that the \<^verbatim>\<open>catch\<close> of bootstrap hangs on.
\<close>

definition rejectSwitch :: "state \<Rightarrow> state" where
  "rejectSwitch s =
     (let s1 = foldl (\<lambda>t who. if who = ErrorHandler
                                then log ''Failed to switch watcher mode'' t else t)
                 s (switchWaiters s)
      in if Bootstrap \<in> set (switchWaiters s)
         then (log ''Failed to bootstrap service'' s1)\<lparr>exited := True\<rparr>
         else s1)"

definition addSettled :: "bool \<Rightarrow> state \<Rightarrow> state" where
  "addSettled ok s =
     (case watcherSwitchPromise s of
        Some (Adding mode) \<Rightarrow>
          (if \<not> ok
           then rejectSwitch
                  ((log ''Failed to initialize file watcher'' s)\<lparr>watcherSwitchPromise := None\<rparr>)
           else if mode = Polling
           then (log (''Watcher running in polling mode (5s interval). Consider raising '' @
                      ''the file descriptor limit for better performance.'') s)
                  \<lparr>watcherSwitchPromise := None\<rparr>
           else s\<lparr>watcherSwitchPromise := None\<rparr>)
            \<lparr>switchWaiters := []\<rparr>
      | _ \<Rightarrow> s)"

text \<open>
  \<^verbatim>\<open>handleWatcherError\<close>, with what its request for polling mode handed back
  when it made one.
\<close>

definition handleWatcherError ::
  "string list \<Rightarrow> watch_error option \<Rightarrow> nat \<Rightarrow> state \<Rightarrow> switch_result option \<times> state" where
  "handleWatcherError START_PATH err instance s =
     (if watcher s \<noteq> Some instance then (None, s)
      else
        (let s1 = (if \<not> watcherErrorDiagnosticsLogged s
                   then (log ''File watcher encountered an error'' s)
                          \<lparr>watcherErrorDiagnosticsLogged := True\<rparr>
                   else s)
         in if (case err of None \<Rightarrow> False
                | Some e \<Rightarrow> (case we_code e of None \<Rightarrow> False | Some c \<Rightarrow> c \<in> UNSUPPORTED_FS_CODES))
            then (None,
                  log ''Skipping unsupported filesystem entry''
                    (case we_path (the err) of
                       None \<Rightarrow> s1
                     | Some targetPath \<Rightarrow>
                         s1\<lparr>unsupportedPaths :=
                               markPathUnsupported START_PATH targetPath (unsupportedPaths s1)\<rparr>))
            else if isWatcherLimitError err
            then (if watcherMode s1 \<noteq> Polling
                  then (case switchWatcherMode Polling
                               (log ''File watcher limit reached; switching to polling mode.'' s1) of
                          (r, s2) \<Rightarrow> (Some r, awaitSwitch ErrorHandler (r, s2)))
                  else (None,
                        log (''File watcher limit reached even in polling mode. Consider '' @
                             ''increasing the file descriptor limit.'') s1))
            else (None, log ''File watcher error'' s1)))"

text \<open>
  The end of \<^verbatim>\<open>bootstrap\<close>, after the scan and the rebuild of the caches: the
  request for native mode, awaited.
\<close>

definition bootstrapWatcher :: "state \<Rightarrow> state" where
  "bootstrapWatcher s = awaitSwitch Bootstrap (switchWatcherMode Native s)"

text \<open>
  What happens to the watcher: an error event of some watcher instance, or one
  of the two awaits of the switch in flight settles. Nothing happens in a
  process that has exited.
\<close>

datatype watcher_event =
  WatcherError "watch_error option" nat | CloseSettled bool | AddSettled bool

fun watcherStep :: "string list \<Rightarrow> watcher_event \<Rightarrow> state \<Rightarrow> state" where
  "watcherStep START_PATH (WatcherError err instance) s =
     (if exited s then s else snd (handleWatcherError START_PATH err instance s))"
| "watcherStep START_PATH (CloseSettled ok) s = (if exited s then s else closeSettled ok s)"
| "watcherStep START_PATH (AddSettled ok) s = (if exited s then s else addSettled ok s)"

section \<open>Auxiliary predicates\<close>

text \<open>The git collector writes only the git metadata table and its own two flags.\<close>

definition git_only :: "state \<Rightarrow> state \<Rightarrow> bool" where
  "git_only s s' =
     (entries s' = entries s \<and> tags s' = tags s \<and>
      unsupportedPaths s' = unsupportedPaths s \<and>
      entryCache s' = entryCache s \<and> tagCache s' = tagCache s \<and>
      broadcasts s' = broadcasts s \<and> watcher s' = watcher s \<and>
      watcherMode s' = watcherMode s \<and> watcherSwitchPromise s' = watcherSwitchPromise s \<and>
      watcherErrorDiagnosticsLogged s' = watcherErrorDiagnosticsLogged s \<and>
      next_watcher s' = next_watcher s \<and> console s' = console s \<and>
      switchWaiters s' = switchWaiters s \<and> exited s' = exited s)"

text \<open>
  The repository root the external tool reports for a directory, as a
  root-relative path; and the checks of the collector that come before the
  tool is asked.
\<close>

definition reportedRoot :: "world \<Rightarrow> string list \<Rightarrow> string list \<Rightarrow> string option" where
  "reportedRoot w START_PATH absolutePath =
     (case git_exec w [''rev-parse'', ''--show-toplevel''] absolutePath of
        ExecOk out \<Rightarrow>
          Some (normalizeRelative START_PATH (path_resolve (process_cwd w) (trim out)))
      | ExecError err \<Rightarrow> None)"

definition toolReached :: "world \<Rightarrow> string list \<Rightarrow> string \<Rightarrow> state \<Rightarrow> bool" where
  "toolReached w absolutePath relativePath s =
     (relativePath \<noteq> [] \<and> (relativePath = ''/'' \<or> basename relativePath \<noteq> ''.git'') \<and>
      (case fs_stat w absolutePath of Stats st \<Rightarrow> isDirectory st | StatError c \<Rightarrow> False) \<and>
      (case fs_stat w (path_join absolutePath ''.git'') of
         Stats st \<Rightarrow> True
       | StatError c \<Rightarrow> False) \<and>
      \<not> gitBinaryUnavailable s)"

text \<open>
  A run of the watcher over a list of events: its last state, the states it
  goes through, and the changes of mode in a list of modes.
\<close>

definition watcherRun :: "string list \<Rightarrow> watcher_event list \<Rightarrow> state \<Rightarrow> state" where
  "watcherRun START_PATH evs s = foldl (\<lambda>t e. watcherStep START_PATH e t) s evs"

fun watcherTrace :: "string list \<Rightarrow> watcher_event list \<Rightarrow> state \<Rightarrow> state list" where
  "watcherTrace START_PATH [] s = [s]"
| "watcherTrace START_PATH (e # es) s = s # watcherTrace START_PATH es (watcherStep START_PATH e s)"

fun mode_changes :: "watcher_mode list \<Rightarrow> (watcher_mode \<times> watcher_mode) list" where
  "mode_changes (a # b # ms) = (if a = b then [] else [(a, b)]) @ mode_changes (b # ms)"
| "mode_changes ms = []"

text \<open>
  The values of the watcher variables when the module is loaded, before
  bootstrap asks for native mode.
\<close>

definition before_bootstrap :: "state \<Rightarrow> bool" where
  "before_bootstrap s =
     (watcher s = None \<and> watcherMode s = Native \<and> watcherSwitchPromise s = None \<and>
      switchWaiters s = [] \<and> \<not> exited s)"

text \<open>
  When an error of a watcher instance can reach the handler as an error of
  the current watcher: the instance is the current one (a switch removes the
  listeners of the watcher it replaces), and the switch is not between the
  call of \<^verbatim>\<open>add()\<close> and its continuation. The call of \<^verbatim>\<open>add()\<close> returns the watcher
  itself at once, so the continuation runs before any event of the
  filesystem is delivered.
\<close>

definition error_receivable :: "nat \<Rightarrow> state \<Rightarrow> bool" where
  "error_receivable instance s =
     (\<not> exited s \<and> watcher s = Some instance \<and>
      (case watcherSwitchPromise s of Some (Adding mode) \<Rightarrow> False | _ \<Rightarrow> True))"

text \<open>
  What holds of the watcher variables from bootstrap on: a watcher is closed
  only for a switch to polling, out of native mode; the new watcher is the
  current one while its start path is added; and there is a current watcher
  when no switch is in flight.
\<close>

definition watcher_inv :: "state \<Rightarrow> bool" where
  "watcher_inv s =
     (case watcherSwitchPromise s of
        None \<Rightarrow> watcher s \<noteq> None
      | Some (Closing mode) \<Rightarrow> mode = Polling \<and> watcher s = None \<and> watcherMode s = Native
      | Some (Adding mode) \<Rightarrow> watcher s \<noteq> None \<and> watcherMode s = mode)"

definition has_unsupported_code :: "watch_error option \<Rightarrow> bool" where
  "has_unsupported_code err =
     (case err of
        None \<Rightarrow> False
      | Some e \<Rightarrow> (case we_code e of None \<Rightarrow> False | Some c \<Rightarrow> c \<in> UNSUPPORTED_FS_CODES))"

definition emfile_error :: "watch_error option" where
  "emfile_error = Some \<lparr> we_code = Some ''EMFILE'', we_message = Some ''too many open files'',
                          we_path = None \<rparr>"

definition eio_error :: "watch_error option" where
  "eio_error = Some \<lparr> we_code = Some ''EIO'', we_message = Some ''i/o error'', we_path = None \<rparr>"

text \<open>
  A name as \<^verbatim>\<open>readdir\<close> lists it: not empty, no slash, neither \<^verbatim>\<open>.\<close> nor \<^verbatim>\<open>..\<close>;
  and the relative path of the node reached from the start path by a list of
  such names.
\<close>

definition valid_name :: "string \<Rightarrow> bool" where
  "valid_name c = (c \<noteq> [] \<and> CHR ''/'' \<notin> set c \<and> c \<noteq> ''.'' \<and> c \<noteq> ''..'')"

definition rel_of :: "string list \<Rightarrow> string" where
  "rel_of xs = (if xs = [] then ''/'' else join_with ''/'' xs)"

definition listings_valid :: "world \<Rightarrow> bool" where
  "listings_valid w =
     (\<forall>p cs. fs_readdir w p = Some cs \<longrightarrow> distinct cs \<and> (\<forall>c\<in>set cs. valid_name c))"

text \<open>
  One call of \<open>walk\<close> without its recursion: the accumulator after the node
  itself is handled, and the children to walk if there are any.
\<close>

definition visit ::
  "world \<Rightarrow> string list \<Rightarrow> string list \<Rightarrow> string set \<times> state
    \<Rightarrow> string list option \<times> (string set \<times> state)" where
  "visit w START_PATH absolutePath acc =
     (case acc of (seen, s) \<Rightarrow>
      if shouldIgnorePath START_PATH (unsupportedPaths s) absolutePath then (None, (seen, s))
      else (case fs_stat w absolutePath of
        StatError c \<Rightarrow>
          (None, (seen,
            if c \<in> UNSUPPORTED_FS_CODES
            then s\<lparr>unsupportedPaths :=
                     markPathUnsupported START_PATH absolutePath (unsupportedPaths s)\<rparr>
            else s))
      | Stats st \<Rightarrow>
          (let relativePath = normalizeRelative START_PATH absolutePath in
           if relativePath \<in> seen then (None, (seen, s))
           else
             (let s1 = upsertEntry
                         (entryFromStats START_PATH (date_now w relativePath) relativePath st) s;
                  s2 = (if isDirectory st
                        then updateGitMetadataForDirectory w START_PATH absolutePath relativePath s1
                        else refreshGitMetadataForPath w START_PATH relativePath s1)
              in if isDirectory st
                 then (case fs_readdir w absolutePath of
                         None \<Rightarrow> (None, (insert relativePath seen, s2))
                       | Some children \<Rightarrow> (Some children, (insert relativePath seen, s2)))
                 else (None, (insert relativePath seen, s2))))))"

text \<open>The relative paths of the nodes at or below the node reached by \<open>xs\<close>.\<close>

definition below :: "string list \<Rightarrow> string set" where
  "below xs = {rel_of (xs @ ys) | ys. \<forall>y\<in>set ys. valid_name y}"

text \<open>
  What a walk of the node reached by \<open>xs\<close> may change: it only adds to the
  ignored paths and to the paths seen, it leaves the tags alone, and it writes
  only entries at or below the node.
\<close>

definition walk_frame :: "string list \<Rightarrow> string set \<times> state \<Rightarrow> string set \<times> state \<Rightarrow> bool" where
  "walk_frame xs acc acc' =
     (unsupportedPaths (snd acc) \<subseteq> unsupportedPaths (snd acc') \<and>
      tags (snd acc') = tags (snd acc) \<and>
      fst acc \<subseteq> fst acc' \<and> fst acc' \<subseteq> fst acc \<union> below xs \<and>
      set (entries (snd acc')) \<subseteq> set (entries (snd acc)) \<union> {e. path e \<in> below xs} \<and>
      {e \<in> set (entries (snd acc)). path e \<notin> below xs} \<subseteq> set (entries (snd acc')) \<and>
      path ` set (entries (snd acc)) \<subseteq> path ` set (entries (snd acc')) \<and>
      (distinct (map path (entries (snd acc))) \<longrightarrow> distinct (map path (entries (snd acc')))))"

text \<open>The same, for any set of paths that may be written.\<close>

definition frame_on :: "string set \<Rightarrow> string set \<times> state \<Rightarrow> string set \<times> state \<Rightarrow> bool" where
  "frame_on B acc acc' =
     (unsupportedPaths (snd acc) \<subseteq> unsupportedPaths (snd acc') \<and>
      fst acc' \<subseteq> fst acc \<union> B \<and>
      {e \<in> set (entries (snd acc)). path e \<notin> B} \<subseteq> set (entries (snd acc')))"

text \<open>
  The invariant of the entries table: the parent recorded in a row is the
  parent of its path, and every row but the root's has its parent's row.
\<close>

definition parents_stored :: "state \<Rightarrow> bool" where
  "parents_stored s =
     (\<forall>e\<in>set (entries s). path e \<noteq> ''/'' \<longrightarrow>
        (\<exists>q. parent_path e = Some q \<and> q \<in> path ` set (entries s)))"

definition store_inv :: "state \<Rightarrow> bool" where
  "store_inv s =
     ((\<forall>e\<in>set (entries s). parent_path e = parentOf (path e)) \<and> parents_stored s)"

text \<open>The path that a watcher event reports.\<close>

fun event_path :: "fs_event \<Rightarrow> string list" where
  "event_path (Add a) = a"
| "event_path (Change a) = a"
| "event_path (Unlink a) = a"
| "event_path (AddDir a) = a"
| "event_path (UnlinkDir a) = a"

section \<open>Sequences of operations\<close>

text \<open>
  The operations that write the store: the initial scan (followed by the
  rebuild of the caches, as at bootstrap), a watcher event, and the two tag
  requests; each with the world it observes.
\<close>

datatype op =
  Scan world nat
| Event world fs_event
| PostTag "string option" "string option" "string option"
| DeleteTag "string option" "string option" "string option"

text \<open>
  The condition under which an event is run below: an add or change event
  comes when the parent of its path is stored (or its path is the root); the
  pattern of a remove event does not match the root, and a remove-file event
  is not for the root.
\<close>

definition parent_known :: "string list \<Rightarrow> string list \<Rightarrow> state \<Rightarrow> bool" where
  "parent_known START_PATH absolutePath s =
     (case parentOf (normalizeRelative START_PATH absolutePath) of
        None \<Rightarrow> True
      | Some q \<Rightarrow> q \<in> path ` set (entries s))"

fun event_ok :: "string list \<Rightarrow> fs_event \<Rightarrow> state \<Rightarrow> bool" where
  "event_ok START_PATH (Add a) s = parent_known START_PATH a s"
| "event_ok START_PATH (Change a) s = parent_known START_PATH a s"
| "event_ok START_PATH (AddDir a) s = parent_known START_PATH a s"
| "event_ok START_PATH (Unlink a) s =
     (normalizeRelative START_PATH a \<noteq> ''/'' \<and>
      \<not> sql_like (normalizeRelative START_PATH a @ ''/%'') ''/'')"
| "event_ok START_PATH (UnlinkDir a) s =
     (\<not> sql_like (normalizeRelative START_PATH a @ ''/%'') ''/'')"

fun apply_op :: "string list \<Rightarrow> op \<Rightarrow> state \<Rightarrow> state option" where
  "apply_op START_PATH (Scan w fuel) s =
     map_option refreshCaches (scanInitialTree w START_PATH fuel s)"
| "apply_op START_PATH (Event w ev) s =
     (if event_ok START_PATH ev s then Some (onEvent w START_PATH ev s) else None)"
| "apply_op START_PATH (PostTag p k v) s = Some (snd (postTag p k v s))"
| "apply_op START_PATH (DeleteTag p k v) s = Some (snd (deleteTagRequest p k v s))"

fun run_ops :: "string list \<Rightarrow> op list \<Rightarrow> state \<Rightarrow> state option" where
  "run_ops START_PATH [] s = Some s"
| "run_ops START_PATH (x # xs) s =
     (case apply_op START_PATH x s of
        None \<Rightarrow> None
      | Some s' \<Rightarrow> run_ops START_PATH xs s')"

fun op_listings_valid :: "op \<Rightarrow> bool" where
  "op_listings_valid (Scan w fuel) = listings_valid w"
| "op_listings_valid x = True"

section \<open>Example data\<close>

definition a_txt :: entry where
  "a_txt =
     \<lparr> path = ''src/a.txt'', name = ''a.txt'', parent_path = Some ''src'', etype = File,
       esize = Some 5, mtime = 1000, extension = ''txt'', depth = 2 \<rparr>"

definition lang_txt :: tag where
  "lang_txt = \<lparr> entry_path = ''src/a.txt'', tkey = ''lang'', tvalue = ''txt'' \<rparr>"

definition lang_md :: tag where
  "lang_md = \<lparr> entry_path = ''src/a.txt'', tkey = ''lang'', tvalue = ''md'' \<rparr>"

definition dir_stats :: stats where
  "dir_stats = \<lparr> isDirectory = True, st_size = 4096, mtimeMs = 1000 \<rparr>"

definition file_stats :: stats where
  "file_stats = \<lparr> isDirectory = False, st_size = 5, mtimeMs = 1000 \<rparr>"

definition quiet_world :: world where
  "quiet_world =
     \<lparr> fs_stat = (\<lambda>p. StatError ''ENOENT''), fs_readdir = (\<lambda>p. None),
       git_exec = (\<lambda>args cwd. ExecError \<lparr> err_code = ''ENOENT'', err_stderr = [],
                                            err_stdout = [], err_message = [] \<rparr>),
       date_now = (\<lambda>p. 0), process_cwd = [] \<rparr>"

definition demo_state :: state where
  "demo_state =
     empty_state
       \<lparr> entries :=
           [entryFromStats [''w''] 0 ''/'' dir_stats,
            entryFromStats [''w''] 0 ''src'' dir_stats,
            entryFromStats [''w''] 0 ''src/a.txt'' file_stats,
            entryFromStats [''w''] 0 ''src/b'' dir_stats,
            entryFromStats [''w''] 0 ''src/b/c.txt'' file_stats],
         tags := [\<lparr> entry_path = ''src/b/c.txt'', tkey = ''lang'', tvalue = ''txt'' \<rparr>] \<rparr>"

text \<open>
  A world in which every path is a directory and git reports \<^verbatim>\<open>/w/repo\<close> as
  the top level wherever it is asked; its other commands fail.
\<close>

definition repo_world :: world where
  "repo_world =
     \<lparr> fs_stat = (\<lambda>p. Stats dir_stats), fs_readdir = (\<lambda>p. None),
       git_exec = (\<lambda>args cwd.
         if args = [''rev-parse'', ''--show-toplevel''] then ExecOk ''/w/repo\<newline>''
         else ExecError \<lparr> err_code = ''1'', err_stderr = ''fatal'', err_stdout = [],
                          err_message = ''failed'' \<rparr>),
       date_now = (\<lambda>p. 7), process_cwd = [] \<rparr>"

definition stale_row :: git_row where
  "stale_row =
     \<lparr> g_entry_path = ''repo/sub'', detected_at = 1, current_branch = Some ''main'',
       commit_count = None, branch_count = None, remotes = [] \<rparr>"

definition repo_state :: state where
  "repo_state =
     empty_state
       \<lparr> entries :=
           [entryFromStats [''w''] 0 ''/'' dir_stats,
            entryFromStats [''w''] 0 ''repo'' dir_stats,
            entryFromStats [''w''] 0 ''repo/sub'' dir_stats],
         git_metadata := [stale_row] \<rparr>"

text \<open>The same world with a regular file at \<^verbatim>\<open>/w/repo/.git/HEAD\<close>.\<close>

definition head_world :: world where
  "head_world =
     repo_world
       \<lparr> fs_stat := (\<lambda>p. if p = [''w'', ''repo'', ''.git'', ''HEAD''] then Stats file_stats
                          else Stats dir_stats) \<rparr>"

text \<open>The state after bootstrap has switched to native mode and the switch has settled.\<close>

definition idle_native :: state where
  "idle_native = addSettled True (bootstrapWatcher empty_state)"

text \<open>
  A small tree under \<^verbatim>\<open>/w\<close>: the directory \<^verbatim>\<open>src\<close> with the file \<^verbatim>\<open>a.txt\<close>; the git
  binary is missing.
\<close>

definition tree_world :: world where
  "tree_world =
     \<lparr> fs_stat = (\<lambda>p. if p = [''w''] \<or> p = [''w'', ''src''] then Stats dir_stats
                       else if p = [''w'', ''src'', ''a.txt''] then Stats file_stats
                       else StatError ''ENOENT''),
       fs_readdir = (\<lambda>p. if p = [''w''] then Some [''src'']
                          else if p = [''w'', ''src''] then Some [''a.txt'']
                          else None),
       git_exec = (\<lambda>args cwd. ExecError \<lparr> err_code = ''ENOENT'', err_stderr = [],
                                            err_stdout = [], err_message = [] \<rparr>),
       date_now = (\<lambda>p. 0), process_cwd = [] \<rparr>"

definition scanned_state :: state where
  "scanned_state =
     empty_state
       \<lparr> entries :=
           [entryFromStats [''w''] 0 ''/'' dir_stats,
            entryFromStats [''w''] 0 ''src'' dir_stats,
            entryFromStats [''w''] 0 ''src/a.txt'' file_stats] \<rparr>"

definition demo_ops :: "op list" where
  "demo_ops =
     [Scan tree_world 3,
      Event tree_world (Change [''w'', ''src'', ''a.txt'']),
      Event tree_world (UnlinkDir [''w'', ''src''])]"

(*DEFS-END*)

section \<open>Tag requests: properties\<close>

lemma falsy_simps [simp]: "falsy None" "falsy (Some [])" "falsy (Some (c # cs)) = False"
  by (simp_all add: falsy_def)

lemma singleEntry_None_iff: "singleEntry p s = None \<longleftrightarrow> p \<notin> path ` set (entries s)"
  by (auto simp: singleEntry_def find_None_iff)

lemma postTag_missing:
  "falsy p \<or> falsy k \<or> falsy v \<Longrightarrow>
     postTag p k v s = (Reply_error 400 ''path, key, and value are required'', s)"
  by (simp add: postTag_def)

lemma postTag_absent:
  "\<not> falsy p \<Longrightarrow> \<not> falsy k \<Longrightarrow> \<not> falsy v \<Longrightarrow> singleEntry (the p) s = None \<Longrightarrow>
     postTag p k v s = (Reply_error 404 ''Entry not found'', s)"
  by (simp add: postTag_def)

lemma postTag_present:
  assumes "\<not> falsy p" "\<not> falsy k" "\<not> falsy v" "singleEntry (the p) s \<noteq> None"
  shows "postTag p k v s =
     (Reply_json (),
      broadcast (TagAdded (the p) (the k) (the v))
        (refreshCaches (s\<lparr>tags :=
           (if \<lparr>entry_path = the p, tkey = the k, tvalue = the v\<rparr> \<in> set (tags s) then tags s
            else tags s @ [\<lparr>entry_path = the p, tkey = the k, tvalue = the v\<rparr>])\<rparr>)))"
proof -
  from assms(4) have "the p \<in> path ` set (entries s)"
    by (simp add: singleEntry_None_iff)
  with assms show ?thesis
    by (auto simp: postTag_def addTag_def Let_def split: option.splits)
qed

text \<open>
  C9. An add-tag request with a missing (or empty) path, key or value is
  answered 400 and the state is unchanged; with all three present and no
  entry at the path it is answered 404 and the state is unchanged; otherwise
  it succeeds, entries and git metadata are unchanged, and the tag table gains
  the triple unless it is already there, in which case the table is unchanged.
\<close>

theorem postTag_400_404_idempotent:
  "(falsy p \<or> falsy k \<or> falsy v \<longrightarrow>
      postTag p k v s = (Reply_error 400 ''path, key, and value are required'', s)) \<and>
   (\<not> falsy p \<and> \<not> falsy k \<and> \<not> falsy v \<and> singleEntry (the p) s = None \<longrightarrow>
      postTag p k v s = (Reply_error 404 ''Entry not found'', s)) \<and>
   (\<not> falsy p \<and> \<not> falsy k \<and> \<not> falsy v \<and> singleEntry (the p) s \<noteq> None \<longrightarrow>
      fst (postTag p k v s) = Reply_json () \<and>
      entries (snd (postTag p k v s)) = entries s \<and>
      git_metadata (snd (postTag p k v s)) = git_metadata s \<and>
      tags (snd (postTag p k v s)) =
        (if \<lparr>entry_path = the p, tkey = the k, tvalue = the v\<rparr> \<in> set (tags s) then tags s
         else tags s @ [\<lparr>entry_path = the p, tkey = the k, tvalue = the v\<rparr>]))"
  using postTag_missing [of p k v s] postTag_absent [of p k v s] postTag_present [of p k v s]
  by (simp add: broadcast_def refreshCaches_def)

theorem postTag_400_404_idempotent_witness:
  "postTag (Some ''src/a.txt'') None (Some ''txt'') (empty_state\<lparr>entries := [a_txt]\<rparr>) =
     (Reply_error 400 ''path, key, and value are required'', empty_state\<lparr>entries := [a_txt]\<rparr>) \<and>
   postTag (Some ''src/a.txt'') (Some ''lang'') (Some ''txt'') empty_state =
     (Reply_error 404 ''Entry not found'', empty_state) \<and>
   tags (snd (postTag (Some ''src/a.txt'') (Some ''lang'') (Some ''txt'')
           (empty_state\<lparr>entries := [a_txt]\<rparr>))) = [lang_txt] \<and>
   tags (snd (postTag (Some ''src/a.txt'') (Some ''lang'') (Some ''txt'')
           (empty_state\<lparr>entries := [a_txt], tags := [lang_txt]\<rparr>))) = [lang_txt]"
  using
    postTag_400_404_idempotent [of "Some ''src/a.txt''" None "Some ''txt''"
      "empty_state\<lparr>entries := [a_txt]\<rparr>"]
    postTag_400_404_idempotent [of "Some ''src/a.txt''" "Some ''lang''" "Some ''txt''" empty_state]
    postTag_400_404_idempotent [of "Some ''src/a.txt''" "Some ''lang''" "Some ''txt''"
      "empty_state\<lparr>entries := [a_txt]\<rparr>"]
    postTag_400_404_idempotent [of "Some ''src/a.txt''" "Some ''lang''" "Some ''txt''"
      "empty_state\<lparr>entries := [a_txt], tags := [lang_txt]\<rparr>"]
  by (simp add: singleEntry_def empty_state_def a_txt_def lang_txt_def)


lemma double_overflow_pos: "0 < double_overflow"
proof -
  have "(2::int) ^ 970 < 2 ^ 1024"
    by (rule power_strict_increasing) simp_all
  then show ?thesis by (simp add: double_overflow_def)
qed

lemma parseInt10_units_zero: "parseInt10_units [48] = Finite 0"
  using double_overflow_pos
  by (simp add: parseInt10_units_def js_space_def is_digit_def digit_value_def)

lemma double_overflow_big: "8 \<le> double_overflow"
proof -
  have "(2::int) ^ 971 \<le> 2 ^ 1024" by (rule power_increasing) simp_all
  then have "(2::int) ^ 970 \<le> 2 ^ 1024 - 2 ^ 970" by simp
  moreover have "(2::int) ^ 3 \<le> 2 ^ 970" by (rule power_increasing) simp_all
  ultimately show ?thesis by (simp add: double_overflow_def)
qed

lemma parseInt10_units_nbsp_four: "parseInt10_units [160, 52] = Finite 4"
  using double_overflow_big
  by (simp add: parseInt10_units_def js_space_def is_digit_def digit_value_def)

lemma trim_units_blank: "trim_units [160, 65279] = []" "trim_units [160, 108, 97, 8232] = [108, 97]"
  by (simp_all add: trim_units_def js_space_def)

lemma trim_units_of_char: "map of_char (trim s) = trim_units (map of_char s)"
proof -
  have "is_space = js_space \<circ> of_char" by (rule ext) (simp add: is_space_def)
  then show ?thesis by (simp add: trim_def trim_units_def dropWhile_map rev_map)
qed

lemma tagSearchLimit_cases:
  "tagSearchLimit limitParam =
     (case limitParam of
        None \<Rightarrow> 20
      | Some l \<Rightarrow> (case parseInt10_units l of Finite n \<Rightarrow> nat (min (max n 1) 100) | _ \<Rightarrow> 20))"
  by (simp add: tagSearchLimit_def split: option.splits jsnum.splits)

text \<open>
  C10. A tag search with a query that is not blank answers with the first
  \<open>tagSearchLimit\<close> matches of the ranking: at most \<open>min (max n 1) 100\<close> of them
  when the limit parameter parses to the finite integer \<open>n\<close> (so at most one
  when \<open>n \<le> 0\<close>), and at most 20 when the parameter is absent, does not parse,
  or overflows. The query and the limit are strings of code units of any
  value, trimmed and parsed with the white space of the language.
\<close>

theorem tagsSearch_bounded:
  assumes "trim_units q \<noteq> []"
  shows "\<exists>rs. tagsSearch fuseRank (Some q) limitParam s = Reply_json rs \<and>
          rs = take (tagSearchLimit limitParam) (fuseRank (trim_units q) (tagCache s)) \<and>
          (\<forall>l n. limitParam = Some l \<and> parseInt10_units l = Finite n \<longrightarrow>
             length rs \<le> nat (min (max n 1) 100) \<and> (n \<le> 0 \<longrightarrow> length rs \<le> 1)) \<and>
          (limitParam = None \<or>
           (\<exists>l. limitParam = Some l \<and>
              (parseInt10_units l = NaN \<or> parseInt10_units l = Infinity))
             \<longrightarrow> length rs \<le> 20)"
  using assms by (auto simp: tagsSearch_def tagSearchLimit_cases)

theorem tagsSearch_bounded_witness:
  "trim_units [160, 108, 97, 8232] \<noteq> [] \<and> parseInt10_units [48] = Finite 0 \<and>
   tagsSearch (\<lambda>q items. map (\<lambda>t. (t, 0)) items) (Some [160, 108, 97, 8232]) (Some [48])
     (empty_state\<lparr>tagCache := [lang_txt, lang_md]\<rparr>) = Reply_json [(lang_txt, 0)] \<and>
   parseInt10_units [160, 52] = Finite 4 \<and>
   tagsSearch (\<lambda>q items. map (\<lambda>t. (t, 0)) items) (Some [160, 108, 97, 8232]) (Some [160, 52])
     (empty_state\<lparr>tagCache := [lang_txt, lang_md]\<rparr>) =
     Reply_json [(lang_txt, 0), (lang_md, 0)]"
  using tagsSearch_bounded [of "[160, 108, 97, 8232]" "\<lambda>q items. map (\<lambda>t. (t, 0)) items"
      "Some [48]" "empty_state\<lparr>tagCache := [lang_txt, lang_md]\<rparr>"]
    tagsSearch_bounded [of "[160, 108, 97, 8232]" "\<lambda>q items. map (\<lambda>t. (t, 0)) items"
      "Some [160, 52]" "empty_state\<lparr>tagCache := [lang_txt, lang_md]\<rparr>"]
  by (simp add: parseInt10_units_zero parseInt10_units_nbsp_four trim_units_blank
      tagSearchLimit_def empty_state_def)

section \<open>Search: properties\<close>

lemma set_js_set_aux:
  "set (foldl (\<lambda>acc x. if x \<in> set acc then acc else acc @ [x]) acc xs) = set acc \<union> set xs"
  by (induction xs arbitrary: acc) auto

lemma set_js_set [simp]: "set (js_set xs) = set xs"
  by (simp add: js_set_def set_js_set_aux)

lemma set_foldl_intersect:
  "set (foldl (\<lambda>acc current. filter (\<lambda>v. v \<in> set current) acc) first rest) =
     set first \<inter> (\<Inter>c\<in>set rest. set c)"
  by (induction rest arbitrary: first) auto

lemma tag_eta: "\<lparr>entry_path = entry_path t, tkey = tkey t, tvalue = tvalue t\<rparr> = (t::tag)"
  by (cases t) simp

lemma set_pathsForTag:
  "set (pathsForTag k v s) = {p. \<lparr>entry_path = p, tkey = k, tvalue = v\<rparr> \<in> set (tags s)}"
proof (rule set_eqI)
  fix p
  show "p \<in> set (pathsForTag k v s) \<longleftrightarrow>
        p \<in> {p. \<lparr>entry_path = p, tkey = k, tvalue = v\<rparr> \<in> set (tags s)}"
  proof
    assume "p \<in> set (pathsForTag k v s)"
    then obtain t where "t \<in> set (tags s)" "tkey t = k" "tvalue t = v" "entry_path t = p"
      by (auto simp: pathsForTag_def)
    then show "p \<in> {p. \<lparr>entry_path = p, tkey = k, tvalue = v\<rparr> \<in> set (tags s)}"
      by (auto simp: tag_eta)
  next
    assume "p \<in> {p. \<lparr>entry_path = p, tkey = k, tvalue = v\<rparr> \<in> set (tags s)}"
    then show "p \<in> set (pathsForTag k v s)"
      by (force simp: pathsForTag_def)
  qed
qed

lemma filterPathsByTags_Nil: "filterPathsByTags [] s = None"
  by (simp add: filterPathsByTags_def)

lemma filterPathsByTags_Cons:
  "\<exists>ps. filterPathsByTags (f # fs) s = Some ps \<and>
        set ps = (\<Inter>g\<in>set (f # fs). {p. \<lparr>entry_path = p, tkey = fkey g, tvalue = fvalue g\<rparr> \<in> set (tags s)})"
  by (simp add: filterPathsByTags_def set_foldl_intersect set_pathsForTag)

lemma set_collectMatches:
  "e \<in> set (collectMatches (Some ps) seen xs) \<Longrightarrow> path e \<in> set ps"
  by (induction xs arbitrary: seen) (auto split: if_splits)

lemma set_entryTags:
  "\<lparr>entry_path = p, tkey = k, tvalue = v\<rparr> \<in> set (tags s) \<Longrightarrow> (k, v) \<in> set (entryTags p s)"
  by (force simp: entryTags_def)

lemma result_in_target:
  assumes "r \<in> set (gatherSearchResults fuseRank q filters s)"
    and "filterPathsByTags filters s = Some ps"
  shows "path (fst r) \<in> set ps \<and> snd r = entryTags (path (fst r)) s"
  using assms
  by (auto simp: gatherSearchResults_def Let_def split: if_splits
      dest: in_set_takeD set_collectMatches)

text \<open>
  C4. With no filter \<open>filterPathsByTags\<close> restricts nothing and the search
  returns what the query alone gives. With filters, the target set is the
  intersection over the filters of the paths carrying that exact key and
  value; every result has its path in it, and the tags listed with every
  result (read from the store for its path) contain every requested pair.
\<close>

theorem search_results_satisfy_filters:
  "(filters = [] \<longrightarrow>
      filterPathsByTags filters s = None \<and>
      gatherSearchResults fuseRank q filters s =
        map (\<lambda>e. (e, entryTags (path e) s))
          (if q \<noteq> [] then collectMatches None {} (take 50 (fuseRank q (entryCache s)))
           else take 50 (entryCache s))) \<and>
   (filters \<noteq> [] \<longrightarrow>
      (\<exists>ps. filterPathsByTags filters s = Some ps \<and>
         set ps = (\<Inter>f\<in>set filters.
                     {p. \<lparr>entry_path = p, tkey = fkey f, tvalue = fvalue f\<rparr> \<in> set (tags s)}) \<and>
         (\<forall>r\<in>set (gatherSearchResults fuseRank q filters s). path (fst r) \<in> set ps))) \<and>
   (\<forall>r\<in>set (gatherSearchResults fuseRank q filters s).
      \<forall>f\<in>set filters. (fkey f, fvalue f) \<in> set (snd r))"
proof (cases filters)
  case Nil
  then show ?thesis
    by (simp add: filterPathsByTags_Nil gatherSearchResults_def)
next
  case (Cons f fs)
  from filterPathsByTags_Cons [of f fs s] obtain ps where
    ps: "filterPathsByTags filters s = Some ps"
      "set ps = (\<Inter>g\<in>set filters.
                   {p. \<lparr>entry_path = p, tkey = fkey g, tvalue = fvalue g\<rparr> \<in> set (tags s)})"
    unfolding Cons by blast
  have in_ps: "path (fst r) \<in> set ps \<and> snd r = entryTags (path (fst r)) s"
    if "r \<in> set (gatherSearchResults fuseRank q filters s)" for r
    using result_in_target [OF that ps(1)] .
  have "(fkey g, fvalue g) \<in> set (snd r)"
    if "r \<in> set (gatherSearchResults fuseRank q filters s)" "g \<in> set filters" for r g
  proof -
    from in_ps [OF that(1)] ps(2) that(2)
    have "\<lparr>entry_path = path (fst r), tkey = fkey g, tvalue = fvalue g\<rparr> \<in> set (tags s)"
      by auto
    with in_ps [OF that(1)] show ?thesis by (simp add: set_entryTags)
  qed
  with ps in_ps Cons show ?thesis by auto
qed

theorem search_results_satisfy_filters_witness:
  "gatherSearchResults (\<lambda>q items. items) [] [\<lparr>fkey = ''lang'', fvalue = ''txt''\<rparr>]
     (empty_state\<lparr>entries := [a_txt], tags := [lang_txt], entryCache := [a_txt]\<rparr>) =
     [(a_txt, [(''lang'', ''txt'')])] \<and>
   gatherSearchResults (\<lambda>q items. items) [] [\<lparr>fkey = ''lang'', fvalue = ''md''\<rparr>]
     (empty_state\<lparr>entries := [a_txt], tags := [lang_txt], entryCache := [a_txt]\<rparr>) = [] \<and>
   gatherSearchResults (\<lambda>q items. items) ''a'' []
     (empty_state\<lparr>entries := [a_txt], tags := [lang_txt], entryCache := [a_txt]\<rparr>) =
     [(a_txt, [(''lang'', ''txt'')])]"
  using search_results_satisfy_filters [of "[\<lparr>fkey = ''lang'', fvalue = ''txt''\<rparr>]"
      "empty_state\<lparr>entries := [a_txt], tags := [lang_txt], entryCache := [a_txt]\<rparr>"
      "\<lambda>q items. items" "[]"]
    search_results_satisfy_filters [of "[]"
      "empty_state\<lparr>entries := [a_txt], tags := [lang_txt], entryCache := [a_txt]\<rparr>"
      "\<lambda>q items. items" "''a''"]
  by (simp add: gatherSearchResults_def filterPathsByTags_def pathsForTag_def js_set_def
      entryTags_def empty_state_def a_txt_def lang_txt_def)

section \<open>The git collector leaves the index alone\<close>

lemma git_only_refl [simp]: "git_only s s"
  by (simp add: git_only_def)

lemma git_only_trans: "git_only s s1 \<Longrightarrow> git_only s1 s2 \<Longrightarrow> git_only s s2"
  by (simp add: git_only_def)

lemma git_only_deleteGitMetadata [simp]: "git_only s (deleteGitMetadata p s)"
  by (simp add: git_only_def deleteGitMetadata_def)

lemma git_only_upsertGitMetadata: "upsertGitMetadata g s = Inr s' \<Longrightarrow> git_only s s'"
  by (auto simp: git_only_def upsertGitMetadata_def split: if_splits)

lemma git_only_runGitCommand: "git_only s (snd (runGitCommand w args cwd s))"
  by (simp add: git_only_def runGitCommand_def split: exec_result.splits)

lemma git_only_gitOptional: "git_only s (snd (gitOptional w args cwd s))"
  using git_only_runGitCommand [of s w args cwd]
  by (auto simp: gitOptional_def split: prod.splits sum.splits thrown.splits)

lemma git_only_gitCurrentBranch: "git_only s (snd (gitCurrentBranch w cwd s))"
proof -
  let ?a1 = "[''symbolic-ref'', ''--quiet'', ''--short'', ''HEAD'']"
  let ?a2 = "[''rev-parse'', ''--short'', ''HEAD'']"
  obtain r1 s1 where r1: "runGitCommand w ?a1 cwd s = (r1, s1)" by force
  obtain r2 s2 where r2: "runGitCommand w ?a2 cwd s1 = (r2, s2)" by force
  have g1: "git_only s s1" using git_only_runGitCommand [of s w ?a1 cwd] r1 by simp
  have g2: "git_only s1 s2" using git_only_runGitCommand [of s1 w ?a2 cwd] r2 by simp
  have g12: "git_only s s2" using g1 g2 by (rule git_only_trans)
  show ?thesis
    using g1 g12
    by (simp add: gitCurrentBranch_def r1 r2 split: sum.splits thrown.splits)
qed

lemma git_only_collectGitFacts: "git_only s (snd (collectGitFacts w cwd rel s))"
proof -
  obtain r1 s1 where r1: "gitCurrentBranch w cwd s = (r1, s1)" by force
  obtain r2 s2 where r2: "gitOptional w [''rev-list'', ''--all'', ''--count''] cwd s1 = (r2, s2)"
    by force
  obtain r3 s3 where r3: "gitOptional w [''branch'', ''--format=%(refname:short)''] cwd s2 = (r3, s3)"
    by force
  obtain r4 s4 where r4: "gitOptional w [''remote'', ''-v''] cwd s3 = (r4, s4)" by force
  have g1: "git_only s s1" using git_only_gitCurrentBranch [of s w cwd] r1 by simp
  have "git_only s1 s2"
    using git_only_gitOptional [of s1 w "[''rev-list'', ''--all'', ''--count'']" cwd] r2 by simp
  with g1 have g2: "git_only s s2" by (rule git_only_trans)
  have "git_only s2 s3"
    using git_only_gitOptional [of s2 w "[''branch'', ''--format=%(refname:short)'']" cwd] r3
    by simp
  with g2 have g3: "git_only s s3" by (rule git_only_trans)
  have "git_only s3 s4"
    using git_only_gitOptional [of s3 w "[''remote'', ''-v'']" cwd] r4 by simp
  with g3 have g4: "git_only s s4" by (rule git_only_trans)
  have g5: "git_only s s5" if "upsertGitMetadata g s4 = Inr s5" for g s5
    using git_only_trans [OF g4 git_only_upsertGitMetadata [OF that]] .
  show ?thesis
    using g1 g2 g3 g4 g5
    by (simp add: collectGitFacts_def r1 r2 r3 r4 Let_def split: sum.splits)
qed

lemma git_only_gatherGitMetadata: "git_only s (snd (gatherGitMetadata w S a rel s))"
proof -
  let ?args = "[''rev-parse'', ''--show-toplevel'']"
  obtain r1 s1 where r1: "runGitCommand w ?args a s = (r1, s1)" by force
  have g1: "git_only s s1" using git_only_runGitCommand [of s w ?args a] r1 by simp
  have g2: "git_only s (deleteGitMetadata rel s1)"
    using git_only_trans [OF g1 git_only_deleteGitMetadata] .
  have g3: "git_only s (snd (collectGitFacts w a rel s1))"
    using git_only_trans [OF g1 git_only_collectGitFacts] .
  show ?thesis
    using g1 g2 g3
    by (simp add: gatherGitMetadata_def r1 Let_def
        split: stat_result.splits sum.splits thrown.splits)
qed

lemma git_only_updateGitMetadataForDirectory:
  "git_only s (updateGitMetadataForDirectory w S a rel s)"
  by (simp add: updateGitMetadataForDirectory_def Let_def git_only_gatherGitMetadata)

lemma git_only_refreshGitMetadataForPath: "git_only s (refreshGitMetadataForPath w S rel s)"
  by (simp add: refreshGitMetadataForPath_def git_only_updateGitMetadataForDirectory
      split: option.splits)

lemmas git_only_entries = git_only_def [THEN iffD1, THEN conjunct1]
lemmas git_only_tags = git_only_def [THEN iffD1, THEN conjunct2, THEN conjunct1]
lemmas git_only_unsupported =
  git_only_def [THEN iffD1, THEN conjunct2, THEN conjunct2, THEN conjunct1]

section \<open>Deleting a branch\<close>

lemma sql_like_percent_skip: "sql_like ps s \<Longrightarrow> sql_like (CHR ''%'' # ps) s"
  by (cases s) auto

lemma sql_like_percent_all [simp]: "sql_like ''%'' s"
  by (induction s) auto

lemma sql_like_same_prefix: "sql_like q s \<Longrightarrow> sql_like (p @ q) (p @ s)"
  by (induction p) (auto simp: sql_like_percent_skip)

lemma sql_like_descendant: "prefix (p @ ''/'') x \<Longrightarrow> sql_like (p @ ''/%'') x"
proof -
  assume "prefix (p @ ''/'') x"
  then obtain r where x: "x = p @ ''/'' @ r" by (auto simp: prefix_def)
  have "sql_like ''/%'' (''/'' @ r)" by simp
  then show ?thesis unfolding x by (rule sql_like_same_prefix)
qed

lemma entries_deleteEntriesWhere [simp]:
  "entries (deleteEntriesWhere P s) = filter (\<lambda>r. \<not> P (path r)) (entries s)"
  by (simp add: deleteEntriesWhere_def Let_def)

lemma tags_deleteEntriesWhere [simp]:
  "tags (deleteEntriesWhere P s) =
     filter (\<lambda>t. entry_path t \<notin> {q \<in> path ` set (entries s). P q}) (tags s)"
  by (auto simp: deleteEntriesWhere_def Let_def intro!: filter_cong)

lemma entries_deleteBranchRows:
  "entries (deleteBranchRows p s) =
     filter (\<lambda>r. path r \<noteq> p \<and> \<not> sql_like (p @ ''/%'') (path r)) (entries s)"
  by (auto simp: deleteBranchRows_def Let_def removeEntriesUnder_def removeEntry_def
      deleteTagsUnder_def deleteTagsForEntry_def intro!: filter_cong)

lemma tags_deleteBranchRows:
  "tags (deleteBranchRows p s) =
     filter (\<lambda>t. entry_path t \<noteq> p \<and> \<not> sql_like (p @ ''/%'') (entry_path t)) (tags s)"
  by (auto simp: deleteBranchRows_def Let_def removeEntriesUnder_def removeEntry_def
      deleteTagsUnder_def deleteTagsForEntry_def intro!: filter_cong)

lemma deleteBranchRows_cascade:
  "(\<forall>x. x = p \<or> prefix (p @ ''/'') x \<longrightarrow>
       x \<notin> path ` set (entries (deleteBranchRows p s)) \<and>
       x \<notin> entry_path ` set (tags (deleteBranchRows p s))) \<and>
   (\<forall>t\<in>set (tags (deleteBranchRows p s)).
       t \<in> set (tags s) \<and>
       (entry_path t \<in> path ` set (entries s) \<longrightarrow>
        entry_path t \<in> path ` set (entries (deleteBranchRows p s)))) \<and>
   set (entries (deleteBranchRows p s)) \<subseteq> set (entries s)"
  by (auto simp: entries_deleteBranchRows tags_deleteBranchRows dest: sql_like_descendant)

text \<open>
  C2. After \<open>deleteEntryBranch\<close> on a path \<open>p\<close> other than the root, and after
  \<open>removePath\<close> on any \<open>p\<close>, no entry and no tag row is left at \<open>p\<close> or at a
  path that has \<open>p\<close> followed by a slash as a prefix; every tag row left was
  there before and does not reference an entry that was deleted; no entry is
  added.
\<close>

theorem delete_branch_cascades:
  "(p \<noteq> ''/'' \<and> p \<noteq> [] \<longrightarrow>
     (\<forall>x. x = p \<or> prefix (p @ ''/'') x \<longrightarrow>
        x \<notin> path ` set (entries (deleteEntryBranch w S p s)) \<and>
        x \<notin> entry_path ` set (tags (deleteEntryBranch w S p s))) \<and>
     (\<forall>t\<in>set (tags (deleteEntryBranch w S p s)).
        t \<in> set (tags s) \<and>
        (entry_path t \<in> path ` set (entries s) \<longrightarrow>
         entry_path t \<in> path ` set (entries (deleteEntryBranch w S p s)))) \<and>
     set (entries (deleteEntryBranch w S p s)) \<subseteq> set (entries s)) \<and>
   (\<forall>x. x = p \<or> prefix (p @ ''/'') x \<longrightarrow>
      x \<notin> path ` set (entries (removePath w S p s)) \<and>
      x \<notin> entry_path ` set (tags (removePath w S p s))) \<and>
   (\<forall>t\<in>set (tags (removePath w S p s)).
      t \<in> set (tags s) \<and>
      (entry_path t \<in> path ` set (entries s) \<longrightarrow>
       entry_path t \<in> path ` set (entries (removePath w S p s)))) \<and>
   set (entries (removePath w S p s)) \<subseteq> set (entries s)"
proof -
  let ?d = "deleteBranchRows p s"
  have e: "entries (refreshGitMetadataForPath w S p ?d) = entries ?d"
    and t: "tags (refreshGitMetadataForPath w S p ?d) = tags ?d"
    using git_only_refreshGitMetadataForPath [of ?d w S p] by (simp_all add: git_only_def)
  show ?thesis
    unfolding deleteEntryBranch_def removePath_def
    using deleteBranchRows_cascade [of p s] by (simp add: e t)
qed


lemma path_entryFromStats [simp]: "path (entryFromStats S n rel st) = rel"
  by (simp add: entryFromStats_def Let_def)

lemma repoPathFromGitInternal_src_b: "repoPathFromGitInternal ''src/b'' = None"
  by (simp add: repoPathFromGitInternal_def)

theorem delete_branch_cascades_witness:
  "map path (entries (deleteEntryBranch quiet_world [''w''] ''src/b'' demo_state)) =
     [''/'', ''src'', ''src/a.txt''] \<and>
   tags (deleteEntryBranch quiet_world [''w''] ''src/b'' demo_state) = [] \<and>
   map path (entries (removePath quiet_world [''w''] ''src/b'' demo_state)) =
     [''/'', ''src'', ''src/a.txt''] \<and>
   tags (removePath quiet_world [''w''] ''src/b'' demo_state) = []"
  using delete_branch_cascades [of "''src/b''" quiet_world "[''w'']" demo_state]
  by (simp add: deleteEntryBranch_def removePath_def refreshGitMetadataForPath_def
      repoPathFromGitInternal_src_b entries_deleteBranchRows tags_deleteBranchRows
      demo_state_def empty_state_def to_lower_char_def)

section \<open>Git metadata only at a repository root\<close>

lemma rows_runGitCommand [simp]:
  "git_metadata (snd (runGitCommand w args cwd s)) = git_metadata s"
  by (simp add: runGitCommand_def split: exec_result.splits)

lemma rows_gitOptional [simp]: "git_metadata (snd (gitOptional w args cwd s)) = git_metadata s"
proof -
  obtain r1 s1 where r1: "runGitCommand w args cwd s = (r1, s1)" by force
  have "git_metadata s1 = git_metadata s" using rows_runGitCommand [of w args cwd s] r1 by simp
  then show ?thesis
    by (simp add: gitOptional_def r1 split: sum.splits thrown.splits)
qed

lemma rows_gitCurrentBranch [simp]:
  "git_metadata (snd (gitCurrentBranch w cwd s)) = git_metadata s"
proof -
  let ?a1 = "[''symbolic-ref'', ''--quiet'', ''--short'', ''HEAD'']"
  let ?a2 = "[''rev-parse'', ''--short'', ''HEAD'']"
  obtain r1 s1 where r1: "runGitCommand w ?a1 cwd s = (r1, s1)" by force
  obtain r2 s2 where r2: "runGitCommand w ?a2 cwd s1 = (r2, s2)" by force
  have g1: "git_metadata s1 = git_metadata s" using rows_runGitCommand [of w ?a1 cwd s] r1 by simp
  have g2: "git_metadata s2 = git_metadata s"
    using rows_runGitCommand [of w ?a2 cwd s1] r2 g1 by simp
  show ?thesis
    using g1 g2
    by (simp add: gitCurrentBranch_def r1 r2 split: sum.splits thrown.splits)
qed

lemma filter_map_replace:
  "filter (\<lambda>r. k r \<noteq> k g) (map (\<lambda>r. if k r = k g then g else r) xs) =
     filter (\<lambda>r. k r \<noteq> k g) xs"
  by (induction xs) auto

lemma rows_upsertGitMetadata:
  assumes "upsertGitMetadata g s = Inr s'"
  shows "set (git_metadata s') \<subseteq> insert g (set (git_metadata s))"
    and "filter (\<lambda>r. g_entry_path r \<noteq> g_entry_path g) (git_metadata s') =
       filter (\<lambda>r. g_entry_path r \<noteq> g_entry_path g) (git_metadata s)"
proof -
  show "set (git_metadata s') \<subseteq> insert g (set (git_metadata s))"
    using assms by (auto simp: upsertGitMetadata_def split: if_splits)
  show "filter (\<lambda>r. g_entry_path r \<noteq> g_entry_path g) (git_metadata s') =
       filter (\<lambda>r. g_entry_path r \<noteq> g_entry_path g) (git_metadata s)"
  proof (cases "g_entry_path g \<in> g_entry_path ` set (git_metadata s)")
    case True
    with assms have "git_metadata s' =
        map (\<lambda>r. if g_entry_path r = g_entry_path g then g else r) (git_metadata s)"
      by (auto simp: upsertGitMetadata_def)
    then show ?thesis by (simp add: filter_map_replace)
  next
    case False
    with assms have "git_metadata s' = git_metadata s @ [g]"
      by (auto simp: upsertGitMetadata_def split: if_splits)
    then show ?thesis by simp
  qed
qed

lemma rows_collectGitFacts:
  "(\<forall>g\<in>set (git_metadata (snd (collectGitFacts w cwd rel s))).
      g \<in> set (git_metadata s) \<or> g_entry_path g = rel) \<and>
   (\<forall>row. fst (collectGitFacts w cwd rel s) = Inr (Some row) \<longrightarrow> g_entry_path row = rel) \<and>
   filter (\<lambda>r. g_entry_path r \<noteq> rel) (git_metadata (snd (collectGitFacts w cwd rel s))) =
     filter (\<lambda>r. g_entry_path r \<noteq> rel) (git_metadata s)"
proof -
  obtain r1 s1 where r1: "gitCurrentBranch w cwd s = (r1, s1)" by force
  obtain r2 s2 where r2: "gitOptional w [''rev-list'', ''--all'', ''--count''] cwd s1 = (r2, s2)"
    by force
  obtain r3 s3 where r3: "gitOptional w [''branch'', ''--format=%(refname:short)''] cwd s2 = (r3, s3)"
    by force
  obtain r4 s4 where r4: "gitOptional w [''remote'', ''-v''] cwd s3 = (r4, s4)" by force
  have g1: "git_metadata s1 = git_metadata s" using rows_gitCurrentBranch [of w cwd s] r1 by simp
  have g2: "git_metadata s2 = git_metadata s"
    using rows_gitOptional [of w "[''rev-list'', ''--all'', ''--count'']" cwd s1] r2 g1 by simp
  have g3: "git_metadata s3 = git_metadata s"
    using rows_gitOptional [of w "[''branch'', ''--format=%(refname:short)'']" cwd s2] r3 g2
    by simp
  have g4: "git_metadata s4 = git_metadata s"
    using rows_gitOptional [of w "[''remote'', ''-v'']" cwd s3] r4 g3 by simp
  define row where "row = \<lparr> g_entry_path = rel,
       detected_at = date_now w rel,
       current_branch = (if falsy (projr r1) then None else projr r1),
       commit_count =
         (case projr r2 of
            None \<Rightarrow> None
          | Some out \<Rightarrow> (case parseInt10 (trim out) of NaN \<Rightarrow> None | n \<Rightarrow> Some n)),
       branch_count =
         (case projr r3 of
            None \<Rightarrow> None
          | Some out \<Rightarrow>
              Some (length (filter (\<lambda>l. l \<noteq> []) (map trim (split_on CHR 0x0A out))))),
       remotes = (case projr r4 of None \<Rightarrow> [] | Some out \<Rightarrow> parseGitRemoteOutput out) \<rparr>"
  have key: "g_entry_path row = rel" by (simp add: row_def)
  have res: "collectGitFacts w cwd rel s =
      (case r1 of Inl e \<Rightarrow> (Inl e, s1) | Inr _ \<Rightarrow>
       case r2 of Inl e \<Rightarrow> (Inl e, s2) | Inr _ \<Rightarrow>
       case r3 of Inl e \<Rightarrow> (Inl e, s3) | Inr _ \<Rightarrow>
       case r4 of Inl e \<Rightarrow> (Inl e, s4) | Inr _ \<Rightarrow>
       (case upsertGitMetadata row s4 of
          Inl e \<Rightarrow> (Inl (Sql_failed e), s4)
        | Inr s5 \<Rightarrow> (Inr (Some row), s5)))"
    by (simp add: collectGitFacts_def r1 r2 r3 r4 Let_def row_def split: sum.splits)
  show ?thesis
  proof (cases "\<exists>s5. upsertGitMetadata row s4 = Inr s5 \<and> collectGitFacts w cwd rel s = (Inr (Some row), s5)")
    case True
    then obtain s5 where s5: "upsertGitMetadata row s4 = Inr s5"
      and c: "collectGitFacts w cwd rel s = (Inr (Some row), s5)" by blast
    from rows_upsertGitMetadata [OF s5] g4 key show ?thesis
      by (auto simp: c)
  next
    case False
    then have "git_metadata (snd (collectGitFacts w cwd rel s)) = git_metadata s \<and>
        (\<forall>row'. fst (collectGitFacts w cwd rel s) \<noteq> Inr (Some row'))"
      using g1 g2 g3 g4 by (auto simp: res split: sum.splits)
    then show ?thesis by simp
  qed
qed


lemma runGitCommand_Inr:
  "runGitCommand w args cwd s = (Inr out, s1) \<Longrightarrow>
     git_exec w args cwd = ExecOk out \<and> git_metadata s1 = git_metadata s"
  by (auto simp: runGitCommand_def split: if_splits exec_result.splits)

lemma runGitCommand_ok:
  "\<not> gitBinaryUnavailable s \<Longrightarrow> git_exec w args cwd = ExecOk out \<Longrightarrow>
     fst (runGitCommand w args cwd s) = Inr out"
  by (simp add: runGitCommand_def)

lemma rows_deleteGitMetadata:
  "set (git_metadata (deleteGitMetadata rel s)) \<subseteq> set (git_metadata s)"
  "rel \<notin> g_entry_path ` set (git_metadata (deleteGitMetadata rel s))"
  "filter (\<lambda>r. g_entry_path r \<noteq> rel) (git_metadata (deleteGitMetadata rel s)) =
     filter (\<lambda>r. g_entry_path r \<noteq> rel) (git_metadata s)"
  by (auto simp: deleteGitMetadata_def)

lemma git_metadata_deleteGitMetadata [simp]:
  "git_metadata (deleteGitMetadata rel s) = filter (\<lambda>g. g_entry_path g \<noteq> rel) (git_metadata s)"
  by (simp add: deleteGitMetadata_def)

lemma gather_shape:
  "(git_metadata (snd (gatherGitMetadata w S a rel s)) = git_metadata s \<and>
    (\<forall>row. fst (gatherGitMetadata w S a rel s) \<noteq> Inr (Some row))) \<or>
   (git_metadata (snd (gatherGitMetadata w S a rel s)) =
      filter (\<lambda>g. g_entry_path g \<noteq> rel) (git_metadata s) \<and>
    (\<forall>row. fst (gatherGitMetadata w S a rel s) \<noteq> Inr (Some row))) \<or>
   (\<exists>s1. gatherGitMetadata w S a rel s = collectGitFacts w a rel s1 \<and>
      git_metadata s1 = git_metadata s \<and> reportedRoot w S a = Some rel)"
proof -
  let ?args = "[''rev-parse'', ''--show-toplevel'']"
  obtain r1 s1 where r1: "runGitCommand w ?args a s = (r1, s1)" by force
  have m1: "git_metadata s1 = git_metadata s"
    using rows_runGitCommand [of w ?args a s] r1 by simp
  have root: "reportedRoot w S a =
      Some (normalizeRelative S (path_resolve (process_cwd w) (trim out)))"
    if "r1 = Inr out" for out
    using runGitCommand_Inr [of w ?args a s out s1] r1 that by (simp add: reportedRoot_def)
  show ?thesis
  proof (cases r1)
    case (Inl e)
    then show ?thesis
      using m1
      by (simp add: gatherGitMetadata_def r1 Let_def
          split: stat_result.splits thrown.splits)
  next
    case (Inr out)
    show ?thesis
    proof (cases "prefix ''..'' (normalizeRelative S (path_resolve (process_cwd w) (trim out))) \<or>
        normalizeRelative S (path_resolve (process_cwd w) (trim out)) \<noteq> rel")
      case True
      then have "(if prefix ''..'' (normalizeRelative S (path_resolve (process_cwd w) (trim out)))
            then (Inr None, deleteGitMetadata rel s1)
            else if normalizeRelative S (path_resolve (process_cwd w) (trim out)) \<noteq> rel
              then (Inr None, deleteGitMetadata rel s1)
              else collectGitFacts w a rel s1) = (Inr None, deleteGitMetadata rel s1)"
        by auto
      then show ?thesis
        using m1 Inr
        by (simp add: gatherGitMetadata_def r1 Let_def split: stat_result.splits)
    next
      case False
      then have "reportedRoot w S a = Some rel" using root [OF Inr] by simp
      note rr = this
      from False have "(if prefix ''..'' (normalizeRelative S (path_resolve (process_cwd w) (trim out)))
            then (Inr None, deleteGitMetadata rel s1)
            else if normalizeRelative S (path_resolve (process_cwd w) (trim out)) \<noteq> rel
              then (Inr None, deleteGitMetadata rel s1)
              else collectGitFacts w a rel s1) = collectGitFacts w a rel s1"
        by auto
      then show ?thesis
        using Inr
        apply (simp add: gatherGitMetadata_def r1 Let_def split: stat_result.splits)
        apply (intro conjI impI allI disjI2 exI [of _ s1])
        apply (simp_all add: m1 rr)
        done
    qed
  qed
qed

lemma gather_stored_only_at_root:
  "(\<forall>g\<in>set (git_metadata (snd (gatherGitMetadata w S a rel s))).
      g \<in> set (git_metadata s) \<or> (g_entry_path g = rel \<and> reportedRoot w S a = Some rel)) \<and>
   (\<forall>row. fst (gatherGitMetadata w S a rel s) = Inr (Some row) \<longrightarrow>
      g_entry_path row = rel \<and> reportedRoot w S a = Some rel) \<and>
   filter (\<lambda>r. g_entry_path r \<noteq> rel) (git_metadata (snd (gatherGitMetadata w S a rel s))) =
     filter (\<lambda>r. g_entry_path r \<noteq> rel) (git_metadata s)"
proof -
  consider
    (keep) "git_metadata (snd (gatherGitMetadata w S a rel s)) = git_metadata s"
      "\<forall>row. fst (gatherGitMetadata w S a rel s) \<noteq> Inr (Some row)"
  | (clear) "git_metadata (snd (gatherGitMetadata w S a rel s)) =
        filter (\<lambda>g. g_entry_path g \<noteq> rel) (git_metadata s)"
      "\<forall>row. fst (gatherGitMetadata w S a rel s) \<noteq> Inr (Some row)"
  | (collect) s1 where "gatherGitMetadata w S a rel s = collectGitFacts w a rel s1"
      "git_metadata s1 = git_metadata s" "reportedRoot w S a = Some rel"
    using gather_shape [of w S a rel s] by blast
  then show ?thesis
  proof cases
    case keep
    then show ?thesis by simp
  next
    case clear
    then show ?thesis by simp
  next
    case collect
    with rows_collectGitFacts [of w a rel s1] show ?thesis by simp
  qed
qed

lemma gather_clears_when_root_differs:
  assumes "toolReached w a rel s" and "reportedRoot w S a = Some r"
    and "r \<noteq> rel \<or> prefix ''..'' r"
  shows "fst (gatherGitMetadata w S a rel s) = Inr None \<and>
         rel \<notin> g_entry_path ` set (git_metadata (snd (gatherGitMetadata w S a rel s)))"
proof -
  let ?args = "[''rev-parse'', ''--show-toplevel'']"
  from assms(2) obtain out where out: "git_exec w ?args a = ExecOk out"
    and r: "r = normalizeRelative S (path_resolve (process_cwd w) (trim out))"
    by (auto simp: reportedRoot_def split: exec_result.splits)
  from assms(1) have un: "\<not> gitBinaryUnavailable s" by (simp add: toolReached_def)
  have run: "runGitCommand w ?args a s = (Inr out, s\<lparr>gitBinaryUnavailable := False\<rparr>)"
    using un out by (simp add: runGitCommand_def)
  show ?thesis
    using assms(1,3) r rows_deleteGitMetadata(2) [of rel "s\<lparr>gitBinaryUnavailable := False\<rparr>"]
    by (auto simp: gatherGitMetadata_def toolReached_def run Let_def
        split: stat_result.splits)
qed


text \<open>
  C6. Whatever \<open>gatherGitMetadata\<close> is called on, every row of the metadata
  table afterwards was there before or is a row for the directory itself,
  written when the tool reported that directory as the repository root; a
  returned record is for the directory and implies the same; rows of other
  directories are untouched. When the collector reaches the tool and the
  reported root differs from the directory, or lies outside the monitored
  root, nothing is returned and no row for the directory is left.
\<close>

theorem metadata_only_at_reported_root:
  "(\<forall>g\<in>set (git_metadata (snd (gatherGitMetadata w S a rel s))).
      g \<in> set (git_metadata s) \<or> (g_entry_path g = rel \<and> reportedRoot w S a = Some rel)) \<and>
   (\<forall>row. fst (gatherGitMetadata w S a rel s) = Inr (Some row) \<longrightarrow>
      g_entry_path row = rel \<and> reportedRoot w S a = Some rel) \<and>
   filter (\<lambda>r. g_entry_path r \<noteq> rel) (git_metadata (snd (gatherGitMetadata w S a rel s))) =
     filter (\<lambda>r. g_entry_path r \<noteq> rel) (git_metadata s) \<and>
   (toolReached w a rel s \<and> (\<exists>r. reportedRoot w S a = Some r \<and> (r \<noteq> rel \<or> prefix ''..'' r)) \<longrightarrow>
      fst (gatherGitMetadata w S a rel s) = Inr None \<and>
      rel \<notin> g_entry_path ` set (git_metadata (snd (gatherGitMetadata w S a rel s))))"
  using gather_stored_only_at_root [of w S a rel s] gather_clears_when_root_differs [of w a rel s S]
  by blast

lemma repo_world_root:
  "reportedRoot repo_world [''w''] a = Some ''repo''"
  by (simp add: reportedRoot_def repo_world_def normalizeRelative_def path_relative_def
      path_resolve_def norm_step_def trim_def is_space_def js_space_def)

lemma gather_repo_sub:
  "gatherGitMetadata repo_world [''w''] [''w'', ''repo'', ''sub''] ''repo/sub'' repo_state =
     (Inr None, repo_state\<lparr>git_metadata := []\<rparr>)"
  by (simp add: gatherGitMetadata_def basename_def repo_world_def runGitCommand_def
      repo_state_def empty_state_def normalizeRelative_def path_relative_def
      path_resolve_def norm_step_def trim_def is_space_def js_space_def deleteGitMetadata_def stale_row_def
      dir_stats_def)

lemma gather_repo:
  "map g_entry_path (git_metadata (snd
     (gatherGitMetadata repo_world [''w''] [''w'', ''repo''] ''repo'' repo_state))) =
     [''repo/sub'', ''repo'']"
  by (simp add: gatherGitMetadata_def basename_def repo_world_def runGitCommand_def
      repo_state_def empty_state_def normalizeRelative_def path_relative_def
      path_resolve_def norm_step_def trim_def is_space_def js_space_def deleteGitMetadata_def stale_row_def
      dir_stats_def
      collectGitFacts_def gitCurrentBranch_def gitOptional_def isNotGitRepositoryError_def
      str_includes_def toLowerCase_def js_lower_char_def upsertGitMetadata_def Let_def)

theorem metadata_only_at_reported_root_witness:
  "toolReached repo_world [''w'', ''repo'', ''sub''] ''repo/sub'' repo_state \<and>
   reportedRoot repo_world [''w''] [''w'', ''repo'', ''sub''] = Some ''repo'' \<and>
   gatherGitMetadata repo_world [''w''] [''w'', ''repo'', ''sub''] ''repo/sub'' repo_state =
     (Inr None, repo_state\<lparr>git_metadata := []\<rparr>) \<and>
   reportedRoot repo_world [''w''] [''w'', ''repo''] = Some ''repo'' \<and>
   map g_entry_path (git_metadata (snd
     (gatherGitMetadata repo_world [''w''] [''w'', ''repo''] ''repo'' repo_state))) =
     [''repo/sub'', ''repo'']"
  using
    metadata_only_at_reported_root [of repo_world "[''w'']" "[''w'', ''repo'', ''sub'']"
      "''repo/sub''" repo_state]
    metadata_only_at_reported_root [of repo_world "[''w'']" "[''w'', ''repo'']" "''repo''"
      repo_state]
  by (simp add: repo_world_root gather_repo_sub gather_repo)
    (simp add: toolReached_def basename_def repo_world_def repo_state_def empty_state_def
      dir_stats_def)

section \<open>Events on files under a git directory\<close>

lemma entries_upsertEntry:
  "path e \<in> path ` set (entries (upsertEntry e s))"
  by (auto simp: upsertEntry_def image_iff)

lemma indexPath_file:
  assumes "\<not> shouldIgnorePath S (unsupportedPaths s) a" and "fs_stat w a = Stats st"
    and "\<not> isDirectory st"
  shows "indexPath w S a s =
     (True, refreshGitMetadataForPath w S (normalizeRelative S a)
              (deleteGitMetadata (normalizeRelative S a)
                (upsertEntry (entryFromStats S (date_now w (normalizeRelative S a))
                   (normalizeRelative S a) st) s)))"
  using assms by (simp add: indexPath_def Let_def)

lemma indexPath_entries:
  assumes "\<not> shouldIgnorePath S (unsupportedPaths s) a" and "fs_stat w a = Stats st"
  shows "fst (indexPath w S a s) \<and>
     entries (snd (indexPath w S a s)) =
       entries (upsertEntry (entryFromStats S (date_now w (normalizeRelative S a))
                   (normalizeRelative S a) st) s)"
proof -
  let ?rel = "normalizeRelative S a"
  let ?s1 = "upsertEntry (entryFromStats S (date_now w ?rel) ?rel st) s"
  have 1: "entries (updateGitMetadataForDirectory w S a ?rel ?s1) = entries ?s1"
    using git_only_updateGitMetadataForDirectory [of ?s1 w S a ?rel] by (simp add: git_only_def)
  have 2: "entries (refreshGitMetadataForPath w S ?rel (deleteGitMetadata ?rel ?s1)) = entries ?s1"
    using git_only_refreshGitMetadataForPath [of "deleteGitMetadata ?rel ?s1" w S ?rel]
    by (simp add: git_only_def deleteGitMetadata_def)
  show ?thesis
    using assms 1 2 by (simp add: indexPath_def Let_def)
qed

lemma entries_broadcast_refresh [simp]:
  "entries (broadcast m (refreshCaches s)) = entries s"
  by (simp add: broadcast_def refreshCaches_def)

lemma indexOf_self: "indexOf m (m @ b) = Some 0"
proof (cases "m @ b")
  case Nil
  then show ?thesis by simp
next
  case (Cons c cs)
  have "prefix m (m @ b)" by simp
  then show ?thesis unfolding Cons by simp
qed

lemma indexOf_first:
  "\<forall>i<length a. \<not> prefix m (drop i (a @ m @ b)) \<Longrightarrow> indexOf m (a @ m @ b) = Some (length a)"
proof (induction a)
  case Nil
  then show ?case by (simp add: indexOf_self)
next
  case (Cons c a)
  from Cons.prems have 0: "\<not> prefix m (c # a @ m @ b)" by force
  have "\<forall>i<length a. \<not> prefix m (drop i (a @ m @ b))"
  proof (intro allI impI)
    fix i assume "i < length a"
    then have "Suc i < length (c # a)" by simp
    with Cons.prems have "\<not> prefix m (drop (Suc i) ((c # a) @ m @ b))" by blast
    then show "\<not> prefix m (drop i (a @ m @ b))" by simp
  qed
  with Cons.IH have "indexOf m (a @ m @ b) = Some (length a)" by blast
  with 0 show ?case by simp
qed

lemma repoPath_top: "prefix ''.git/'' rel \<Longrightarrow> repoPathFromGitInternal rel = Some ''/''"
  by (auto simp: repoPathFromGitInternal_def)

lemma repoPath_nested:
  assumes "R \<noteq> []" and "\<not> prefix ''.git/'' (R @ ''/.git/'' @ f)"
    and "\<forall>i<length R. \<not> prefix ''/.git'' (drop i (R @ ''/.git/'' @ f))"
  shows "repoPathFromGitInternal (R @ ''/.git/'' @ f) = Some R"
proof -
  have idx: "indexOf ''/.git'' (R @ ''/.git'' @ (''/'' @ f)) = Some (length R)"
    using assms(3) by (intro indexOf_first) simp
  have ne: "R @ ''/.git/'' @ f \<noteq> ''.git''" using assms(1) by (cases R) auto
  show ?thesis
    using idx assms(1,2) ne
    by (simp add: repoPathFromGitInternal_def Let_def)
qed

text \<open>
  C7 as amended. An add or change event for a file that is not ignored and
  whose stat succeeds stores the file as an entry, whatever its path; when the
  path is \<open>R/.git/f\<close> with the first \<^verbatim>\<open>/.git\<close> of the path at the end of \<open>R\<close>
  (and the path does not itself begin with \<^verbatim>\<open>.git/\<close>), the event also runs the
  metadata update of the directory \<open>R\<close>; when the path begins with \<^verbatim>\<open>.git/\<close>, that
  of the root.
\<close>

theorem git_internal_file_indexed_and_refreshed:
  assumes "ev = Add a \<or> ev = Change a"
    and "\<not> shouldIgnorePath S (unsupportedPaths s) a"
    and "fs_stat w a = Stats st" and "\<not> isDirectory st"
  shows "normalizeRelative S a \<in> path ` set (entries (onEvent w S ev s)) \<and>
    (\<forall>R f. normalizeRelative S a = R @ ''/.git/'' @ f \<and> R \<noteq> [] \<and>
        \<not> prefix ''.git/'' (R @ ''/.git/'' @ f) \<and>
        (\<forall>i<length R. \<not> prefix ''/.git'' (drop i (R @ ''/.git/'' @ f))) \<longrightarrow>
      (\<exists>m. onEvent w S ev s =
         broadcast m (refreshCaches
           (updateGitMetadataForDirectory w S (absoluteFromRelative S R) R
              (deleteGitMetadata (normalizeRelative S a)
                 (upsertEntry (entryFromStats S (date_now w (normalizeRelative S a))
                    (normalizeRelative S a) st) s)))))) \<and>
    (prefix ''.git/'' (normalizeRelative S a) \<longrightarrow>
      (\<exists>m. onEvent w S ev s =
         broadcast m (refreshCaches
           (updateGitMetadataForDirectory w S S ''/''
              (deleteGitMetadata (normalizeRelative S a)
                 (upsertEntry (entryFromStats S (date_now w (normalizeRelative S a))
                    (normalizeRelative S a) st) s))))))"
proof -
  let ?rel = "normalizeRelative S a"
  let ?s1 = "deleteGitMetadata ?rel (upsertEntry (entryFromStats S (date_now w ?rel) ?rel st) s)"
  have ip: "indexPath w S a s = (True, refreshGitMetadataForPath w S ?rel ?s1)"
    using indexPath_file [OF assms(2,3,4)] .
  have ev: "\<exists>m. onEvent w S ev s = broadcast m (refreshCaches (refreshGitMetadataForPath w S ?rel ?s1))"
    using assms(1) ip by auto
  have stored: "?rel \<in> path ` set (entries (onEvent w S ev s))"
  proof -
    have "entries (refreshGitMetadataForPath w S ?rel ?s1) =
        entries (upsertEntry (entryFromStats S (date_now w ?rel) ?rel st) s)"
      using indexPath_entries [OF assms(2,3)] ip by simp
    moreover have "?rel \<in> path ` set (entries (upsertEntry (entryFromStats S (date_now w ?rel) ?rel st) s))"
      using entries_upsertEntry [of "entryFromStats S (date_now w ?rel) ?rel st" s] by simp
    ultimately show ?thesis using ev by auto
  qed
  have nested: "refreshGitMetadataForPath w S ?rel ?s1 =
      updateGitMetadataForDirectory w S (absoluteFromRelative S R) R ?s1"
    if "?rel = R @ ''/.git/'' @ f" "R \<noteq> []" "\<not> prefix ''.git/'' (R @ ''/.git/'' @ f)"
      "\<forall>i<length R. \<not> prefix ''/.git'' (drop i (R @ ''/.git/'' @ f))" for R f
    using repoPath_nested [OF that(2,3,4)] that(1)
    by (simp add: refreshGitMetadataForPath_def)
  have top: "refreshGitMetadataForPath w S ?rel ?s1 = updateGitMetadataForDirectory w S S ''/'' ?s1"
    if "prefix ''.git/'' ?rel"
    using repoPath_top [OF that] by (simp add: refreshGitMetadataForPath_def absoluteFromRelative_def)
  show ?thesis
    using stored ev nested top by (metis (no_types, lifting))
qed


lemma head_not_ignored:
  "\<not> shouldIgnorePath [''w''] (unsupportedPaths repo_state) [''w'', ''repo'', ''.git'', ''HEAD'']"
  by (simp add: shouldIgnorePath_def repo_state_def empty_state_def abs_string_def
      normalizeRelative_def path_relative_def extname_def basename_def toLowerCase_def)

lemma head_rel:
  "normalizeRelative [''w''] [''w'', ''repo'', ''.git'', ''HEAD''] = ''repo/.git/HEAD''"
  by (simp add: normalizeRelative_def path_relative_def)

lemma head_stat: "fs_stat head_world [''w'', ''repo'', ''.git'', ''HEAD''] = Stats file_stats"
  by (simp add: head_world_def)

lemma head_first_git: "\<forall>i<length ''repo''. \<not> prefix ''/.git'' (drop i (''repo'' @ ''/.git/'' @ ''HEAD''))"
  by (simp add: less_Suc_eq numeral_eq_Suc All_less_Suc)

text \<open>
  C7 as stated fails: the add event for \<^verbatim>\<open>/w/repo/.git/HEAD\<close> leaves an entry
  with the path \<^verbatim>\<open>repo/.git/HEAD\<close> in the index.
\<close>

theorem git_internal_file_is_stored:
  "''repo/.git/HEAD'' \<in> path ` set (entries
     (onEvent head_world [''w''] (Add [''w'', ''repo'', ''.git'', ''HEAD'']) repo_state))"
proof -
  let ?a = "[''w'', ''repo'', ''.git'', ''HEAD'']"
  let ?e = "entryFromStats [''w''] (date_now head_world ''repo/.git/HEAD'') ''repo/.git/HEAD''
      file_stats"
  obtain b s1 where ip: "indexPath head_world [''w''] ?a repo_state = (b, s1)" by force
  from indexPath_entries [OF head_not_ignored head_stat] ip
  have "b" and "entries s1 = entries (upsertEntry ?e repo_state)"
    by (simp_all add: head_rel)
  moreover have "''repo/.git/HEAD'' \<in> path ` set (entries (upsertEntry ?e repo_state))"
    using entries_upsertEntry [of ?e repo_state] by simp
  ultimately show ?thesis
    by (simp add: ip)
qed

lemma head_update:
  "map g_entry_path (git_metadata
     (updateGitMetadataForDirectory head_world [''w''] [''w'', ''repo''] ''repo''
        (deleteGitMetadata ''repo/.git/HEAD''
           (upsertEntry (entryFromStats [''w''] 7 ''repo/.git/HEAD'' file_stats) repo_state)))) =
   [''repo/sub'', ''repo'']"
  by (simp add: updateGitMetadataForDirectory_def gatherGitMetadata_def basename_def
      head_world_def repo_world_def runGitCommand_def
      repo_state_def empty_state_def normalizeRelative_def path_relative_def
      path_resolve_def norm_step_def trim_def is_space_def js_space_def deleteGitMetadata_def stale_row_def
      dir_stats_def upsertEntry_def path_join_def
      collectGitFacts_def gitCurrentBranch_def gitOptional_def isNotGitRepositoryError_def
      str_includes_def toLowerCase_def js_lower_char_def upsertGitMetadata_def Let_def)

theorem git_internal_file_indexed_and_refreshed_witness:
  "\<not> shouldIgnorePath [''w''] (unsupportedPaths repo_state) [''w'', ''repo'', ''.git'', ''HEAD''] \<and>
   fs_stat head_world [''w'', ''repo'', ''.git'', ''HEAD''] = Stats file_stats \<and>
   \<not> isDirectory file_stats \<and>
   normalizeRelative [''w''] [''w'', ''repo'', ''.git'', ''HEAD''] = ''repo'' @ ''/.git/'' @ ''HEAD'' \<and>
   ''repo/.git/HEAD'' \<in> path ` set (entries
     (onEvent head_world [''w''] (Add [''w'', ''repo'', ''.git'', ''HEAD'']) repo_state)) \<and>
   map g_entry_path (git_metadata
     (onEvent head_world [''w''] (Add [''w'', ''repo'', ''.git'', ''HEAD'']) repo_state)) =
     [''repo/sub'', ''repo'']"
proof -
  have fs: "\<not> isDirectory file_stats" by (simp add: file_stats_def)
  have rel: "normalizeRelative [''w''] [''w'', ''repo'', ''.git'', ''HEAD''] = ''repo'' @ ''/.git/'' @ ''HEAD''"
    by (simp add: head_rel)
  have np: "\<not> prefix ''.git/'' (''repo'' @ ''/.git/'' @ ''HEAD'')" by simp
  have abs: "absoluteFromRelative [''w''] ''repo'' = [''w'', ''repo'']"
    by (simp add: absoluteFromRelative_def norm_step_def)
  have now: "date_now head_world ''repo/.git/HEAD'' = 7"
    by (simp add: head_world_def repo_world_def)
  have ev: "Add [''w'', ''repo'', ''.git'', ''HEAD''] = Add [''w'', ''repo'', ''.git'', ''HEAD''] \<or>
      Add [''w'', ''repo'', ''.git'', ''HEAD''] = Change [''w'', ''repo'', ''.git'', ''HEAD'']"
    by simp
  note t = git_internal_file_indexed_and_refreshed [OF ev head_not_ignored head_stat fs]
  have stored: "''repo/.git/HEAD'' \<in> path ` set (entries
       (onEvent head_world [''w''] (Add [''w'', ''repo'', ''.git'', ''HEAD'']) repo_state))"
    using t [THEN conjunct1] unfolding head_rel .
  have ne: "''repo'' \<noteq> []" by simp
  have c2: "normalizeRelative [''w''] [''w'', ''repo'', ''.git'', ''HEAD''] =
        ''repo'' @ ''/.git/'' @ ''HEAD'' \<and> ''repo'' \<noteq> [] \<and>
      \<not> prefix ''.git/'' (''repo'' @ ''/.git/'' @ ''HEAD'') \<and>
      (\<forall>i<length ''repo''. \<not> prefix ''/.git'' (drop i (''repo'' @ ''/.git/'' @ ''HEAD'')))"
    by (intro conjI rel np head_first_git ne)
  have "\<exists>m. onEvent head_world [''w''] (Add [''w'', ''repo'', ''.git'', ''HEAD'']) repo_state =
       broadcast m (refreshCaches
         (updateGitMetadataForDirectory head_world [''w''] [''w'', ''repo''] ''repo''
            (deleteGitMetadata ''repo/.git/HEAD''
               (upsertEntry (entryFromStats [''w''] 7 ''repo/.git/HEAD'' file_stats) repo_state))))"
    using t [THEN conjunct2, THEN conjunct1, rule_format, OF c2]
    unfolding abs now head_rel .
  then obtain m where "onEvent head_world [''w''] (Add [''w'', ''repo'', ''.git'', ''HEAD'']) repo_state =
       broadcast m (refreshCaches
         (updateGitMetadataForDirectory head_world [''w''] [''w'', ''repo''] ''repo''
            (deleteGitMetadata ''repo/.git/HEAD''
               (upsertEntry (entryFromStats [''w''] 7 ''repo/.git/HEAD'' file_stats) repo_state))))"
    by blast
  then have "map g_entry_path (git_metadata
       (onEvent head_world [''w''] (Add [''w'', ''repo'', ''.git'', ''HEAD'']) repo_state)) =
     [''repo/sub'', ''repo'']"
    using head_update by (simp add: broadcast_def refreshCaches_def del: onEvent.simps)
  with stored show ?thesis
    using head_not_ignored head_stat fs rel by (simp del: onEvent.simps)
qed

section \<open>Watcher modes\<close>

lemma switch_request_in_flight:
  assumes "watcherSwitchPromise s \<noteq> None"
  shows "snd (switchWatcherMode m s) = s \<and>
         fst (switchWatcherMode m s) =
           (if m = watcherMode s \<and> watcher s \<noteq> None then Returned_at_once else Switch_in_flight)"
  using assms by (simp add: switchWatcherMode_def)

lemma handleWatcherError_stale:
  "watcher s \<noteq> Some i \<Longrightarrow> handleWatcherError S err i s = (None, s)"
  by (simp add: handleWatcherError_def)

lemma handleWatcherError_other:
  assumes "\<not> isWatcherLimitError err \<or> has_unsupported_code err"
  shows "fst (handleWatcherError S err i s) = None \<and>
         watcherSwitchPromise (snd (handleWatcherError S err i s)) = watcherSwitchPromise s \<and>
         watcher (snd (handleWatcherError S err i s)) = watcher s \<and>
         watcherMode (snd (handleWatcherError S err i s)) = watcherMode s \<and>
         exited (snd (handleWatcherError S err i s)) = exited s \<and>
         (watcher s = Some i \<longrightarrow>
            length (console s) < length (console (snd (handleWatcherError S err i s))))"
  using assms
  by (auto simp: handleWatcherError_def has_unsupported_code_def log_def Let_def
      split: option.splits)

lemma handleWatcherError_limit:
  assumes "watcher s = Some i" and "watcherMode s = Native" and "watcherSwitchPromise s = None"
    and "isWatcherLimitError err" and "\<not> has_unsupported_code err"
  shows "fst (handleWatcherError S err i s) = Some Switch_started \<and>
         watcherSwitchPromise (snd (handleWatcherError S err i s)) = Some (Closing Polling) \<and>
         watcher (snd (handleWatcherError S err i s)) = None \<and>
         watcherMode (snd (handleWatcherError S err i s)) = Native \<and>
         exited (snd (handleWatcherError S err i s)) = exited s \<and>
         switchWaiters (snd (handleWatcherError S err i s)) = switchWaiters s @ [ErrorHandler]"
  using assms
  by (simp add: handleWatcherError_def has_unsupported_code_def switchWatcherMode_def
      awaitSwitch_def log_def Let_def)

lemma handleWatcherError_request_in_flight:
  assumes "watcherSwitchPromise s \<noteq> None" and "fst (handleWatcherError S err i s) = Some r"
  shows "r = Switch_in_flight \<and>
         watcherSwitchPromise (snd (handleWatcherError S err i s)) = watcherSwitchPromise s \<and>
         watcher (snd (handleWatcherError S err i s)) = watcher s \<and>
         watcherMode (snd (handleWatcherError S err i s)) = watcherMode s \<and>
         switchWaiters (snd (handleWatcherError S err i s)) = switchWaiters s @ [ErrorHandler]"
  using assms
  by (auto simp: handleWatcherError_def switchWatcherMode_def awaitSwitch_def log_def Let_def
      split: if_splits option.splits)

lemma bootstrap_inv:
  assumes "before_bootstrap s0"
  shows "watcher_inv (bootstrapWatcher s0)" "watcherMode (bootstrapWatcher s0) = Native"
  using assms
  by (simp_all add: before_bootstrap_def bootstrapWatcher_def switchWatcherMode_def
      awaitSwitch_def installWatcher_def watcher_inv_def)

lemma watcher_inv_cong:
  "watcherSwitchPromise t = watcherSwitchPromise s \<Longrightarrow> watcher t = watcher s \<Longrightarrow>
     watcherMode t = watcherMode s \<Longrightarrow> watcher_inv t = watcher_inv s"
  by (simp add: watcher_inv_def split: option.splits switch_phase.splits)

lemma handle_inv:
  assumes "watcher_inv s"
  shows "watcher_inv (snd (handleWatcherError S err i s)) \<and>
         watcherMode (snd (handleWatcherError S err i s)) = watcherMode s"
proof (cases "watcher s = Some i")
  case False
  with assms show ?thesis by (simp add: handleWatcherError_stale)
next
  case True
  show ?thesis
  proof (cases "\<not> isWatcherLimitError err \<or> has_unsupported_code err")
    case True
    note o = handleWatcherError_other [OF this, of S i s]
    from o have "watcher_inv (snd (handleWatcherError S err i s)) = watcher_inv s"
      by (intro watcher_inv_cong) simp_all
    with o assms show ?thesis by simp
  next
    case False
    then have lim: "isWatcherLimitError err" "\<not> has_unsupported_code err" by simp_all
    show ?thesis
    proof (cases "watcherMode s")
      case Polling
      with True lim have h: "handleWatcherError S err i s =
          (None, log (''File watcher limit reached even in polling mode. Consider '' @
                      ''increasing the file descriptor limit.'')
                   (if \<not> watcherErrorDiagnosticsLogged s
                    then (log ''File watcher encountered an error'' s)
                           \<lparr>watcherErrorDiagnosticsLogged := True\<rparr>
                    else s))"
        by (simp add: handleWatcherError_def has_unsupported_code_def log_def Let_def)
      have "watcher_inv (snd (handleWatcherError S err i s)) = watcher_inv s"
        unfolding h by (intro watcher_inv_cong) (simp_all add: log_def)
      with assms show ?thesis by (simp add: h log_def)
    next
      case Native
      show ?thesis
      proof (cases "watcherSwitchPromise s")
        case None
        from handleWatcherError_limit [OF True Native None lim, of S] Native show ?thesis
          by (simp add: watcher_inv_def)
      next
        case (Some ph)
        then have fl: "watcherSwitchPromise s \<noteq> None" by simp
        from True Native lim Some
        have "fst (handleWatcherError S err i s) = Some Switch_in_flight"
          by (simp add: handleWatcherError_def has_unsupported_code_def switchWatcherMode_def
              awaitSwitch_def log_def Let_def)
        note o = handleWatcherError_request_in_flight [OF fl this]
        from o have "watcher_inv (snd (handleWatcherError S err i s)) = watcher_inv s"
          by (intro watcher_inv_cong) simp_all
        with o assms show ?thesis by simp
      qed
    qed
  qed
qed

lemma closeSettled_inv:
  assumes "watcher_inv s"
  shows "watcher_inv (closeSettled ok s) \<and>
         (watcherMode (closeSettled ok s) = watcherMode s \<or>
          watcherMode s = Native \<and> watcherMode (closeSettled ok s) = Polling)"
  using assms
  by (auto simp: watcher_inv_def closeSettled_def installWatcher_def log_def
      split: option.splits switch_phase.splits)

lemma mode_rejectSwitch [simp]:
  "watcherMode (rejectSwitch s) = watcherMode s" "watcher (rejectSwitch s) = watcher s"
  "watcherSwitchPromise (rejectSwitch s) = watcherSwitchPromise s"
proof -
  have "watcherMode (foldl (\<lambda>t who. if who = ErrorHandler
          then log ''Failed to switch watcher mode'' t else t) s ws) = watcherMode s \<and>
        watcher (foldl (\<lambda>t who. if who = ErrorHandler
          then log ''Failed to switch watcher mode'' t else t) s ws) = watcher s \<and>
        watcherSwitchPromise (foldl (\<lambda>t who. if who = ErrorHandler
          then log ''Failed to switch watcher mode'' t else t) s ws) = watcherSwitchPromise s"
    for ws
    by (induction ws arbitrary: s) (simp_all add: log_def)
  then show "watcherMode (rejectSwitch s) = watcherMode s" "watcher (rejectSwitch s) = watcher s"
    "watcherSwitchPromise (rejectSwitch s) = watcherSwitchPromise s"
    by (simp_all add: rejectSwitch_def Let_def log_def)
qed

lemma addSettled_inv:
  assumes "watcher_inv s"
  shows "watcher_inv (addSettled ok s) \<and> watcherMode (addSettled ok s) = watcherMode s"
  using assms
  by (auto simp: watcher_inv_def addSettled_def log_def
      split: option.splits switch_phase.splits)

lemma step_inv:
  assumes "watcher_inv s"
  shows "watcher_inv (watcherStep S e s) \<and>
         (watcherMode (watcherStep S e s) = watcherMode s \<or>
          watcherMode s = Native \<and> watcherMode (watcherStep S e s) = Polling)"
proof (cases e)
  case (WatcherError err i)
  with handle_inv [OF assms, of S err i] assms show ?thesis by simp
next
  case (CloseSettled ok)
  with closeSettled_inv [OF assms, of ok] assms show ?thesis by simp
next
  case (AddSettled ok)
  with addSettled_inv [OF assms, of ok] assms show ?thesis by simp
qed

lemma watcherRun_Cons: "watcherRun S (e # evs) s = watcherRun S evs (watcherStep S e s)"
  by (simp add: watcherRun_def)

lemma watcherRun_Nil: "watcherRun S [] s = s"
  by (simp add: watcherRun_def)

lemma watcherRun_append: "watcherRun S (xs @ ys) s = watcherRun S ys (watcherRun S xs s)"
  by (simp add: watcherRun_def)

lemma run_inv: "watcher_inv s \<Longrightarrow> watcher_inv (watcherRun S evs s)"
proof (induction evs arbitrary: s)
  case Nil
  then show ?case by (simp add: watcherRun_Nil)
next
  case (Cons e evs)
  from step_inv [OF Cons.prems, of S e] have "watcher_inv (watcherStep S e s)" by simp
  from Cons.IH [OF this] show ?case by (simp add: watcherRun_Cons)
qed

lemma mode_polling_step:
  assumes "watcher_inv s" and "watcherMode s = Polling"
  shows "watcherMode (watcherStep S e s) = Polling"
  using step_inv [OF assms(1), of S e] assms(2) by auto

lemma run_polling:
  "watcher_inv s \<Longrightarrow> watcherMode s = Polling \<Longrightarrow> watcherMode (watcherRun S evs s) = Polling"
proof (induction evs arbitrary: s)
  case Nil
  then show ?case by (simp add: watcherRun_Nil)
next
  case (Cons e evs)
  from step_inv [OF Cons.prems(1), of S e] have i: "watcher_inv (watcherStep S e s)" by simp
  from mode_polling_step [OF Cons.prems] have "watcherMode (watcherStep S e s) = Polling" .
  from Cons.IH [OF i this] show ?case by (simp add: watcherRun_Cons)
qed

lemma watcherTrace_hd: "\<exists>ss. watcherTrace S evs s = s # ss"
  by (cases evs) simp_all

lemma trace_changes:
  "watcher_inv s \<Longrightarrow>
     mode_changes (map watcherMode (watcherTrace S evs s)) =
       (if watcherMode s = Native \<and> watcherMode (watcherRun S evs s) = Polling
        then [(Native, Polling)] else [])"
proof (induction evs arbitrary: s)
  case Nil
  then show ?case by (simp add: watcherRun_Nil)
next
  case (Cons e evs)
  let ?t = "watcherStep S e s"
  from step_inv [OF Cons.prems, of S e]
  have i: "watcher_inv ?t"
    and m: "watcherMode ?t = watcherMode s \<or> watcherMode s = Native \<and> watcherMode ?t = Polling"
    by simp_all
  obtain ss where ss: "watcherTrace S evs ?t = ?t # ss" using watcherTrace_hd by blast
  have c: "mode_changes (map watcherMode (watcherTrace S (e # evs) s)) =
      (if watcherMode s = watcherMode ?t then [] else [(watcherMode s, watcherMode ?t)]) @
      mode_changes (map watcherMode (watcherTrace S evs ?t))"
    by (simp add: ss)
  note ih = Cons.IH [OF i]
  show ?case
  proof (cases "watcherMode s = watcherMode ?t")
    case True
    with c ih show ?thesis by (simp add: watcherRun_Cons)
  next
    case False
    with m have n: "watcherMode s = Native" "watcherMode ?t = Polling" by auto
    from run_polling [OF i n(2), of S evs] have "watcherMode (watcherRun S evs ?t) = Polling" .
    with c ih n show ?thesis by (simp add: watcherRun_Cons)
  qed
qed

lemma closing_waits:
  assumes "watcherSwitchPromise s = Some (Closing m)" and "watcher s = None"
  shows "\<forall>ok. CloseSettled ok \<notin> set evs \<Longrightarrow> watcherRun S evs s = s"
proof (induction evs)
  case Nil
  show ?case by (simp add: watcherRun_Nil)
next
  case (Cons e evs)
  have "watcherStep S e s = s"
  proof (cases e)
    case (WatcherError err i)
    with assms(2) show ?thesis by (simp add: handleWatcherError_stale)
  next
    case (CloseSettled ok)
    with Cons.prems show ?thesis by auto
  next
    case (AddSettled ok)
    with assms(1) show ?thesis by (simp add: addSettled_def)
  qed
  with Cons show ?case by (simp add: watcherRun_Cons)
qed

lemma receivable_idle:
  assumes "watcher_inv s" and "error_receivable i s"
  shows "watcherSwitchPromise s = None \<and> watcher s = Some i \<and> \<not> exited s"
  using assms
  by (auto simp: watcher_inv_def error_receivable_def split: option.splits switch_phase.splits)

lemma limit_error_switches:
  assumes "watcher_inv s" and "error_receivable i s" and "watcherMode s = Native"
    and "isWatcherLimitError err" and "\<not> has_unsupported_code err"
  shows "fst (handleWatcherError S err i s) = Some Switch_started \<and>
         watcherSwitchPromise (snd (handleWatcherError S err i s)) = Some (Closing Polling) \<and>
         watcherMode (snd (handleWatcherError S err i s)) = Native \<and>
         (\<forall>evs' ok. (\<forall>ok'. CloseSettled ok' \<notin> set evs') \<longrightarrow>
            watcherMode (watcherRun S (evs' @ [CloseSettled ok])
              (snd (handleWatcherError S err i s))) = Polling)"
proof -
  let ?t = "snd (handleWatcherError S err i s)"
  from receivable_idle [OF assms(1,2)]
  have idle: "watcherSwitchPromise s = None" "watcher s = Some i" "\<not> exited s" by simp_all
  note h = handleWatcherError_limit [OF idle(2) assms(3) idle(1) assms(4,5), of S]
  from h idle(3) have t: "watcherSwitchPromise ?t = Some (Closing Polling)" "watcher ?t = None"
    "\<not> exited ?t" by simp_all
  have "watcherMode (watcherRun S (evs' @ [CloseSettled ok]) ?t) = Polling"
    if "\<forall>ok'. CloseSettled ok' \<notin> set evs'" for evs' ok
  proof -
    from closing_waits [OF t(1,2) that, of S] have "watcherRun S evs' ?t = ?t" .
    then have "watcherRun S (evs' @ [CloseSettled ok]) ?t = closeSettled ok ?t"
      using t(3) by (simp add: watcherRun_append watcherRun_Cons watcherRun_Nil)
    with t(1) show ?thesis by (simp add: closeSettled_def installWatcher_def)
  qed
  with h show ?thesis by simp
qed


lemma handle_exited: "exited (snd (handleWatcherError S err i s)) = exited s"
  by (auto simp: handleWatcherError_def switchWatcherMode_def awaitSwitch_def installWatcher_def
      log_def Let_def split: option.splits)

text \<open>
  C5. The watcher starts with the request of bootstrap for native mode and
  then goes through any sequence of events. Along the run the mode changes at
  most once, and the one change is from native to polling. A limit error that
  carries no unsupported code and is received from the current watcher in
  native mode starts the switch to polling, and the mode is polling as soon
  as the old watcher has closed, whatever else comes in between. An error
  that is no limit error, or carries an unsupported code, makes no request
  and changes neither the watcher, nor the mode, nor the switch in flight,
  and it writes to the console when it comes from the current watcher; no
  error ends the process, and the error of a watcher that is not the current
  one changes nothing at all. While a switch is in flight no request starts
  another one and the state stays as it is: the request of an error handler,
  and every request for another mode than the current one, hands back the
  switch in flight.
\<close>

theorem watcher_mode_switching:
  assumes "before_bootstrap s0" and "s = watcherRun S evs (bootstrapWatcher s0)"
  shows "mode_changes (map watcherMode (watcherTrace S evs (bootstrapWatcher s0))) =
           (if watcherMode s = Polling then [(Native, Polling)] else []) \<and>
         (error_receivable i s \<and> watcherMode s = Native \<and>
          isWatcherLimitError err \<and> \<not> has_unsupported_code err \<longrightarrow>
            fst (handleWatcherError S err i s) = Some Switch_started \<and>
            watcherSwitchPromise (snd (handleWatcherError S err i s)) = Some (Closing Polling) \<and>
            watcherMode (snd (handleWatcherError S err i s)) = Native \<and>
            (\<forall>evs' ok. (\<forall>ok'. CloseSettled ok' \<notin> set evs') \<longrightarrow>
               watcherMode (watcherRun S (evs' @ [CloseSettled ok])
                 (snd (handleWatcherError S err i s))) = Polling)) \<and>
         (\<not> isWatcherLimitError err' \<or> has_unsupported_code err' \<longrightarrow>
            fst (handleWatcherError S err' j t) = None \<and>
            watcherSwitchPromise (snd (handleWatcherError S err' j t)) = watcherSwitchPromise t \<and>
            watcher (snd (handleWatcherError S err' j t)) = watcher t \<and>
            watcherMode (snd (handleWatcherError S err' j t)) = watcherMode t \<and>
            (watcher t = Some j \<longrightarrow>
               length (console t) < length (console (snd (handleWatcherError S err' j t))))) \<and>
         exited (snd (handleWatcherError S err' j t)) = exited t \<and>
         (watcher t \<noteq> Some j \<longrightarrow> handleWatcherError S err' j t = (None, t)) \<and>
         (watcherSwitchPromise t \<noteq> None \<longrightarrow>
            snd (switchWatcherMode m t) = t \<and>
            fst (switchWatcherMode m t) \<noteq> Switch_started \<and>
            (m \<noteq> watcherMode t \<or> watcher t = None \<longrightarrow>
               fst (switchWatcherMode m t) = Switch_in_flight) \<and>
            (\<forall>r. fst (handleWatcherError S err' j t) = Some r \<longrightarrow>
               r = Switch_in_flight \<and>
               watcherSwitchPromise (snd (handleWatcherError S err' j t)) = watcherSwitchPromise t \<and>
               watcher (snd (handleWatcherError S err' j t)) = watcher t \<and>
               watcherMode (snd (handleWatcherError S err' j t)) = watcherMode t))"
proof -
  note b = bootstrap_inv [OF assms(1)]
  have inv: "watcher_inv s" unfolding assms(2) using b(1) by (rule run_inv)
  have A: "mode_changes (map watcherMode (watcherTrace S evs (bootstrapWatcher s0))) =
           (if watcherMode s = Polling then [(Native, Polling)] else [])"
    using trace_changes [OF b(1), of S evs] b(2) assms(2) by simp
  have B: "fst (handleWatcherError S err i s) = Some Switch_started \<and>
            watcherSwitchPromise (snd (handleWatcherError S err i s)) = Some (Closing Polling) \<and>
            watcherMode (snd (handleWatcherError S err i s)) = Native \<and>
            (\<forall>evs' ok. (\<forall>ok'. CloseSettled ok' \<notin> set evs') \<longrightarrow>
               watcherMode (watcherRun S (evs' @ [CloseSettled ok])
                 (snd (handleWatcherError S err i s))) = Polling)"
    if "error_receivable i s" "watcherMode s = Native" "isWatcherLimitError err"
      "\<not> has_unsupported_code err"
    using limit_error_switches [OF inv that] .
  have C: "fst (handleWatcherError S err' j t) = None \<and>
            watcherSwitchPromise (snd (handleWatcherError S err' j t)) = watcherSwitchPromise t \<and>
            watcher (snd (handleWatcherError S err' j t)) = watcher t \<and>
            watcherMode (snd (handleWatcherError S err' j t)) = watcherMode t \<and>
            (watcher t = Some j \<longrightarrow>
               length (console t) < length (console (snd (handleWatcherError S err' j t))))"
    if "\<not> isWatcherLimitError err' \<or> has_unsupported_code err'"
    using handleWatcherError_other [OF that, of S j t] by simp
  have E: "snd (switchWatcherMode m t) = t \<and>
            fst (switchWatcherMode m t) \<noteq> Switch_started \<and>
            (m \<noteq> watcherMode t \<or> watcher t = None \<longrightarrow>
               fst (switchWatcherMode m t) = Switch_in_flight) \<and>
            (\<forall>r. fst (handleWatcherError S err' j t) = Some r \<longrightarrow>
               r = Switch_in_flight \<and>
               watcherSwitchPromise (snd (handleWatcherError S err' j t)) = watcherSwitchPromise t \<and>
               watcher (snd (handleWatcherError S err' j t)) = watcher t \<and>
               watcherMode (snd (handleWatcherError S err' j t)) = watcherMode t)"
    if "watcherSwitchPromise t \<noteq> None"
    using switch_request_in_flight [OF that, of m]
      handleWatcherError_request_in_flight [OF that, of S err' j]
    by auto
  from A B C E handle_exited [of S err' j t] handleWatcherError_stale [of t j S err']
  show ?thesis by blast
qed

lemma emfile_is_limit: "isWatcherLimitError emfile_error \<and> \<not> has_unsupported_code emfile_error"
  by (simp add: isWatcherLimitError_def has_unsupported_code_def emfile_error_def
      toUpperCase_def js_upper_char_def UNSUPPORTED_FS_CODES_def)

lemma eio_is_other: "\<not> isWatcherLimitError eio_error"
  by (simp add: isWatcherLimitError_def eio_error_def toUpperCase_def js_upper_char_def
      str_includes_def)

lemma idle_native_simps:
  "watcher idle_native = Some 0" "watcherMode idle_native = Native"
  "watcherSwitchPromise idle_native = None" "next_watcher idle_native = 1"
  "console idle_native = []" "exited idle_native = False" "switchWaiters idle_native = []"
  "watcherErrorDiagnosticsLogged idle_native = False"
  by (simp_all add: idle_native_def addSettled_def bootstrapWatcher_def awaitSwitch_def
      switchWatcherMode_def installWatcher_def empty_state_def)

lemma idle_native_run:
  "idle_native = watcherRun [''w''] [AddSettled True] (bootstrapWatcher empty_state)"
  by (simp add: idle_native_def watcherRun_def bootstrapWatcher_def awaitSwitch_def
      switchWatcherMode_def installWatcher_def empty_state_def)

lemma before_bootstrap_empty: "before_bootstrap empty_state"
  by (simp add: before_bootstrap_def empty_state_def)


lemma booting_simps:
  "watcher (bootstrapWatcher empty_state) = Some 0"
  "watcherMode (bootstrapWatcher empty_state) = Native"
  "watcherSwitchPromise (bootstrapWatcher empty_state) = Some (Adding Native)"
  "switchWaiters (bootstrapWatcher empty_state) = [Bootstrap]"
  "exited (bootstrapWatcher empty_state) = False"
  by (simp_all add: bootstrapWatcher_def awaitSwitch_def switchWatcherMode_def
      installWatcher_def empty_state_def)

lemma polling_run:
  "watcherMode (watcherRun [''w'']
     [AddSettled True, WatcherError emfile_error 0, CloseSettled True, AddSettled True,
      WatcherError emfile_error 1, WatcherError eio_error 1]
     (bootstrapWatcher empty_state)) = Polling"
proof -
  have 1: "watcherRun [''w''] [AddSettled True] (bootstrapWatcher empty_state) = idle_native"
    using idle_native_run by simp
  have r: "error_receivable 0 idle_native"
    by (simp add: error_receivable_def idle_native_simps)
  have i: "watcher_inv idle_native"
    unfolding idle_native_run by (rule run_inv) (rule bootstrap_inv [OF before_bootstrap_empty])
  note l = limit_error_switches [OF i r idle_native_simps(2) emfile_is_limit [THEN conjunct1]
      emfile_is_limit [THEN conjunct2], of "[''w'']"]
  let ?c = "snd (handleWatcherError [''w''] emfile_error 0 idle_native)"
  from l have q: "\<forall>evs' ok. (\<forall>ok'. CloseSettled ok' \<notin> set evs') \<longrightarrow>
      watcherMode (watcherRun [''w''] (evs' @ [CloseSettled ok]) ?c) = Polling"
    by simp
  from q [rule_format, of "[]" True]
  have 2: "watcherMode (watcherRun [''w''] [CloseSettled True] ?c) = Polling"
    by simp
  have ic: "watcher_inv (watcherRun [''w''] [CloseSettled True] ?c)"
    by (intro run_inv) (use handle_inv [OF i] in simp)
  have s1: "watcherStep [''w''] (AddSettled True) (bootstrapWatcher empty_state) = idle_native"
    by (simp add: booting_simps idle_native_def)
  have s2: "watcherStep [''w''] (WatcherError emfile_error 0) idle_native = ?c"
    by (simp add: idle_native_simps)
  have "watcherRun [''w'']
     [AddSettled True, WatcherError emfile_error 0, CloseSettled True, AddSettled True,
      WatcherError emfile_error 1, WatcherError eio_error 1]
     (bootstrapWatcher empty_state) =
     watcherRun [''w''] [AddSettled True, WatcherError emfile_error 1, WatcherError eio_error 1]
       (watcherRun [''w''] [CloseSettled True] ?c)"
    unfolding watcherRun_Cons watcherRun_Nil s1 s2 ..
  with run_polling [OF ic] 2 show ?thesis by simp
qed

theorem watcher_mode_switching_witness:
  "before_bootstrap empty_state \<and>
   idle_native = watcherRun [''w''] [AddSettled True] (bootstrapWatcher empty_state) \<and>
   error_receivable 0 idle_native \<and> watcherMode idle_native = Native \<and>
   isWatcherLimitError emfile_error \<and> \<not> has_unsupported_code emfile_error \<and>
   mode_changes (map watcherMode
     (watcherTrace [''w''] [AddSettled True] (bootstrapWatcher empty_state))) = [] \<and>
   fst (handleWatcherError [''w''] emfile_error 0 idle_native) = Some Switch_started \<and>
   watcherMode (watcherRun [''w''] ([WatcherError eio_error 0, AddSettled True] @ [CloseSettled False])
     (snd (handleWatcherError [''w''] emfile_error 0 idle_native))) = Polling \<and>
   mode_changes (map watcherMode
     (watcherTrace [''w'']
        [AddSettled True, WatcherError emfile_error 0, CloseSettled True, AddSettled True,
         WatcherError emfile_error 1, WatcherError eio_error 1]
        (bootstrapWatcher empty_state))) = [(Native, Polling)] \<and>
   \<not> isWatcherLimitError eio_error \<and>
   fst (handleWatcherError [''w''] eio_error 0 idle_native) = None \<and>
   watcherMode (snd (handleWatcherError [''w''] eio_error 0 idle_native)) = Native \<and>
   length (console idle_native) <
     length (console (snd (handleWatcherError [''w''] eio_error 0 idle_native))) \<and>
   handleWatcherError [''w''] eio_error 5 idle_native = (None, idle_native) \<and>
   watcherSwitchPromise (snd (handleWatcherError [''w''] emfile_error 0 idle_native)) =
     Some (Closing Polling) \<and>
   fst (switchWatcherMode Polling (snd (handleWatcherError [''w''] emfile_error 0 idle_native))) =
     Switch_in_flight \<and>
   fst (handleWatcherError [''w''] emfile_error 0 (bootstrapWatcher empty_state)) =
     Some Switch_in_flight \<and>
   watcherSwitchPromise
     (snd (handleWatcherError [''w''] emfile_error 0 (bootstrapWatcher empty_state))) =
     Some (Adding Native)"
proof -
  let ?c = "snd (handleWatcherError [''w''] emfile_error 0 idle_native)"
  note t1 = watcher_mode_switching [OF before_bootstrap_empty idle_native_run,
      where i = 0 and err = emfile_error and err' = eio_error and j = 0 and t = idle_native
        and m = Polling]
  note t2 = watcher_mode_switching [OF before_bootstrap_empty idle_native_run,
      where i = 0 and err = emfile_error and err' = eio_error and j = 5 and t = idle_native
        and m = Polling]
  note t3 = watcher_mode_switching [OF before_bootstrap_empty refl,
      where S = "[''w'']" and i = 0 and err = emfile_error and err' = eio_error and j = 0
        and t = ?c and m = Polling
        and evs = "[AddSettled True, WatcherError emfile_error 0, CloseSettled True,
          AddSettled True, WatcherError emfile_error 1, WatcherError eio_error 1]"]
  note t4 = watcher_mode_switching [OF before_bootstrap_empty idle_native_run,
      where i = 0 and err = emfile_error and err' = emfile_error and j = 0
        and t = "bootstrapWatcher empty_state" and m = Polling]
  have r: "error_receivable 0 idle_native"
    by (simp add: error_receivable_def idle_native_simps)
  have f: "fst (handleWatcherError [''w''] emfile_error 0 (bootstrapWatcher empty_state)) =
      Some Switch_in_flight"
    using emfile_is_limit
    by (simp add: handleWatcherError_def has_unsupported_code_def switchWatcherMode_def
        awaitSwitch_def log_def Let_def booting_simps)
  from t1 r emfile_is_limit
  have a: "mode_changes (map watcherMode
       (watcherTrace [''w''] [AddSettled True] (bootstrapWatcher empty_state))) = []"
    "fst (handleWatcherError [''w''] emfile_error 0 idle_native) = Some Switch_started"
    "watcherSwitchPromise ?c = Some (Closing Polling)"
    "watcherMode ?c = Native"
    "\<forall>evs' ok. (\<forall>ok'. CloseSettled ok' \<notin> set evs') \<longrightarrow>
       watcherMode (watcherRun [''w''] (evs' @ [CloseSettled ok]) ?c) = Polling"
    by (simp_all add: idle_native_simps)
  from a(5) [rule_format, of "[WatcherError eio_error 0, AddSettled True]" False]
  have a6: "watcherMode (watcherRun [''w'']
       ([WatcherError eio_error 0, AddSettled True] @ [CloseSettled False]) ?c) = Polling"
    by simp
  from t1 eio_is_other
  have b: "fst (handleWatcherError [''w''] eio_error 0 idle_native) = None"
    "watcherMode (snd (handleWatcherError [''w''] eio_error 0 idle_native)) = Native"
    "length (console idle_native) <
       length (console (snd (handleWatcherError [''w''] eio_error 0 idle_native)))"
    by (simp_all add: idle_native_simps)
  from t2 have c: "handleWatcherError [''w''] eio_error 5 idle_native = (None, idle_native)"
    by (simp add: idle_native_simps)
  from t3 polling_run a(3,4)
  have d: "mode_changes (map watcherMode
     (watcherTrace [''w'']
        [AddSettled True, WatcherError emfile_error 0, CloseSettled True, AddSettled True,
         WatcherError emfile_error 1, WatcherError eio_error 1]
        (bootstrapWatcher empty_state))) = [(Native, Polling)]"
    "fst (switchWatcherMode Polling ?c) = Switch_in_flight"
    by simp_all
  from t4 f have e: "watcherSwitchPromise
     (snd (handleWatcherError [''w''] emfile_error 0 (bootstrapWatcher empty_state))) =
     Some (Adding Native)"
    by (simp add: booting_simps)
  from a(1-4) a6 b c d e f r show ?thesis
    using before_bootstrap_empty idle_native_run emfile_is_limit eio_is_other
    by (simp add: idle_native_simps)
qed

section \<open>Paths under the start path\<close>

lemma split_on_no_sep: "d \<notin> set c \<Longrightarrow> split_on d c = [c]"
  by (induction c) auto

lemma path_join_valid: "valid_name c \<Longrightarrow> path_join a c = a @ [c]"
  by (simp add: path_join_def valid_name_def split_on_no_sep norm_step_def)

lemma strip_common_under [simp]: "strip_common S (S @ xs) = ([], xs)"
  by (induction S) simp_all

lemma strip_common_same [simp]: "strip_common S S = ([], [])"
  using strip_common_under [of S "[]"] by simp

lemma strip_common_prefix:
  "strip_common xs ys = (f, t) \<Longrightarrow> (f = [] \<longleftrightarrow> prefix xs ys)"
  by (induction xs ys rule: strip_common.induct) (auto split: if_splits)

lemma join_with_Cons_prefix: "prefix x (join_with sep (x # ys))"
  by (cases ys) auto

lemma join_with_snoc: "xs \<noteq> [] \<Longrightarrow> join_with sep (xs @ [c]) = join_with sep xs @ sep @ c"
  by (induction sep xs rule: join_with.induct) auto

lemma join_with_nonempty: "xs \<noteq> [] \<Longrightarrow> hd xs \<noteq> [] \<Longrightarrow> join_with sep xs \<noteq> []"
  by (induction sep xs rule: join_with.induct) auto

lemma normalizeRelative_under:
  "\<forall>x\<in>set xs. valid_name x \<Longrightarrow> normalizeRelative S (S @ xs) = rel_of xs"
  by (cases xs) (auto simp: normalizeRelative_def path_relative_def rel_of_def valid_name_def
      join_with_nonempty)

lemma normalizeRelative_outside:
  assumes "\<not> prefix S a"
  shows "prefix ''..'' (normalizeRelative S a)"
proof -
  obtain f t where ft: "strip_common S a = (f, t)" by force
  with assms strip_common_prefix [OF ft] have "f \<noteq> []" by simp
  then obtain n where n: "length f = Suc n" by (cases f) auto
  have "prefix ''..'' (join_with ''/'' (''..'' # (replicate n ''..'' @ t)))"
    by (rule join_with_Cons_prefix)
  moreover from this have "join_with ''/'' (''..'' # (replicate n ''..'' @ t)) \<noteq> []" by auto
  ultimately show ?thesis
    by (simp add: normalizeRelative_def path_relative_def ft n)
qed

lemma lastIndexOf_none: "d \<notin> set c \<Longrightarrow> lastIndexOf d c = None"
  by (induction c) auto

lemma lastIndexOf_append: "d \<notin> set c \<Longrightarrow> lastIndexOf d (u @ d # c) = Some (length u)"
  by (induction u) (auto simp: lastIndexOf_none)

lemma rel_of_not_empty: "\<forall>x\<in>set xs. valid_name x \<Longrightarrow> rel_of xs \<noteq> []"
  by (cases xs) (auto simp: rel_of_def valid_name_def join_with_nonempty)

lemma rel_of_snoc:
  "xs \<noteq> [] \<Longrightarrow> rel_of (xs @ [c]) = rel_of xs @ ''/'' @ c"
  by (simp add: rel_of_def join_with_snoc)

lemma rel_of_single: "rel_of [c] = c"
  by (simp add: rel_of_def)

lemma parentOf_rel_snoc:
  assumes "\<forall>x\<in>set xs. valid_name x" and "valid_name c"
  shows "parentOf (rel_of (xs @ [c])) = Some (rel_of xs)"
proof (cases "xs = []")
  case True
  from assms(2) have "c \<noteq> ''/''" "c \<noteq> []" "lastIndexOf CHR ''/'' c = None"
    by (auto simp: valid_name_def lastIndexOf_none)
  with True show ?thesis by (simp add: parentOf_def rel_of_def)
next
  case False
  from assms(2) have c: "CHR ''/'' \<notin> set c" "c \<noteq> []" by (auto simp: valid_name_def)
  have ne: "rel_of xs \<noteq> []" using assms(1) by (rule rel_of_not_empty)
  have r: "rel_of (xs @ [c]) = rel_of xs @ CHR ''/'' # c"
    using rel_of_snoc [OF False] by simp
  have li: "lastIndexOf CHR ''/'' (rel_of xs @ CHR ''/'' # c) = Some (length (rel_of xs))"
    using c(1) by (rule lastIndexOf_append)
  have "rel_of xs @ CHR ''/'' # c \<noteq> ''/''" using ne by (cases "rel_of xs") auto
  then show ?thesis
    using ne li by (simp add: parentOf_def r)
qed

section \<open>What a walk changes\<close>

lemma walk_Suc:
  "walk w S (Suc n) a acc =
     (case visit w S a acc of
        (None, acc') \<Rightarrow> Some acc'
      | (Some cs, acc') \<Rightarrow> walk_children w S n a cs acc')"
  by (cases acc) (simp add: visit_def Let_def split: stat_result.splits option.splits)

lemma below_self: "rel_of xs \<in> below xs"
  by (auto simp: below_def intro: exI [of _ "[]"])

lemma below_child: "valid_name c \<Longrightarrow> below (xs @ [c]) \<subseteq> below xs"
proof
  fix r assume c: "valid_name c" and "r \<in> below (xs @ [c])"
  then obtain ys where "\<forall>y\<in>set ys. valid_name y" "r = rel_of ((xs @ [c]) @ ys)"
    by (auto simp: below_def)
  with c have "\<forall>y\<in>set (c # ys). valid_name y" "r = rel_of (xs @ (c # ys))" by simp_all
  then show "r \<in> below xs" unfolding below_def by blast
qed

lemma walk_frame_refl: "walk_frame xs acc acc"
  by (auto simp: walk_frame_def)

lemma walk_frame_D:
  assumes "walk_frame xs a b"
  shows "unsupportedPaths (snd a) \<subseteq> unsupportedPaths (snd b)"
    and "tags (snd b) = tags (snd a)"
    and "fst a \<subseteq> fst b"
    and "fst b \<subseteq> fst a \<union> below xs"
    and "set (entries (snd b)) \<subseteq> set (entries (snd a)) \<union> {e. path e \<in> below xs}"
    and "{e \<in> set (entries (snd a)). path e \<notin> below xs} \<subseteq> set (entries (snd b))"
    and "path ` set (entries (snd a)) \<subseteq> path ` set (entries (snd b))"
    and "distinct (map path (entries (snd a))) \<Longrightarrow> distinct (map path (entries (snd b)))"
  using assms by (simp_all add: walk_frame_def)

lemma walk_frame_I:
  assumes "unsupportedPaths (snd a) \<subseteq> unsupportedPaths (snd b)"
    and "tags (snd b) = tags (snd a)"
    and "fst a \<subseteq> fst b"
    and "fst b \<subseteq> fst a \<union> below xs"
    and "set (entries (snd b)) \<subseteq> set (entries (snd a)) \<union> {e. path e \<in> below xs}"
    and "{e \<in> set (entries (snd a)). path e \<notin> below xs} \<subseteq> set (entries (snd b))"
    and "path ` set (entries (snd a)) \<subseteq> path ` set (entries (snd b))"
    and "distinct (map path (entries (snd a))) \<Longrightarrow> distinct (map path (entries (snd b)))"
  shows "walk_frame xs a b"
  using assms by (simp add: walk_frame_def)

lemma walk_frame_trans:
  assumes ab: "walk_frame xs a b" and bc: "walk_frame xs b c"
  shows "walk_frame xs a c"
proof (rule walk_frame_I)
  note A = walk_frame_D [OF ab] and B = walk_frame_D [OF bc]
  show "unsupportedPaths (snd a) \<subseteq> unsupportedPaths (snd c)" using A(1) B(1) by blast
  show "tags (snd c) = tags (snd a)" using A(2) B(2) by simp
  show "fst a \<subseteq> fst c" using A(3) B(3) by blast
  show "fst c \<subseteq> fst a \<union> below xs" using A(4) B(4) by blast
  show "set (entries (snd c)) \<subseteq> set (entries (snd a)) \<union> {e. path e \<in> below xs}"
    using A(5) B(5) by blast
  show "{e \<in> set (entries (snd a)). path e \<notin> below xs} \<subseteq> set (entries (snd c))"
    using A(6) B(6) by blast
  show "path ` set (entries (snd a)) \<subseteq> path ` set (entries (snd c))"
    using A(7) B(7) by blast
  show "distinct (map path (entries (snd c)))" if "distinct (map path (entries (snd a)))"
    using B(8) [OF A(8) [OF that]] .
qed

lemma walk_frame_child:
  assumes c: "valid_name c" and ab: "walk_frame (xs @ [c]) a b"
  shows "walk_frame xs a b"
proof (rule walk_frame_I)
  note A = walk_frame_D [OF ab] and sub = below_child [OF c, of xs]
  show "unsupportedPaths (snd a) \<subseteq> unsupportedPaths (snd b)" by (rule A(1))
  show "tags (snd b) = tags (snd a)" by (rule A(2))
  show "fst a \<subseteq> fst b" by (rule A(3))
  show "fst b \<subseteq> fst a \<union> below xs" using A(4) sub by blast
  show "set (entries (snd b)) \<subseteq> set (entries (snd a)) \<union> {e. path e \<in> below xs}"
    using A(5) sub by blast
  show "{e \<in> set (entries (snd a)). path e \<notin> below xs} \<subseteq> set (entries (snd b))"
    using A(6) sub by blast
  show "path ` set (entries (snd a)) \<subseteq> path ` set (entries (snd b))" by (rule A(7))
  show "distinct (map path (entries (snd b)))" if "distinct (map path (entries (snd a)))"
    using A(8) [OF that] .
qed

lemma upsertEntry_set:
  "set (entries (upsertEntry e s)) \<subseteq> insert e (set (entries s))"
  "{r \<in> set (entries s). path r \<noteq> path e} \<subseteq> set (entries (upsertEntry e s))"
  "e \<in> set (entries (upsertEntry e s))"
  "path ` set (entries (upsertEntry e s)) = insert (path e) (path ` set (entries s))"
  by (auto simp: upsertEntry_def image_iff)

lemma map_path_replace:
  "map path (map (\<lambda>r. if path r = path e then e else r) es) = map path es"
  by (induction es) auto

lemma upsertEntry_distinct:
  "distinct (map path (entries s)) \<Longrightarrow> distinct (map path (entries (upsertEntry e s)))"
  by (auto simp: upsertEntry_def map_path_replace simp del: map_map)

lemma upsertEntry_other [simp]:
  "tags (upsertEntry e s) = tags s" "unsupportedPaths (upsertEntry e s) = unsupportedPaths s"
  by (simp_all add: upsertEntry_def)

lemma visit_shape:
  "visit w S a (seen, s) = (None, (seen, s)) \<or>
   (\<not> shouldIgnorePath S (unsupportedPaths s) a \<and>
    visit w S a (seen, s) =
      (None, (seen, s\<lparr>unsupportedPaths := markPathUnsupported S a (unsupportedPaths s)\<rparr>))) \<or>
   (\<exists>st s2. fs_stat w a = Stats st \<and> \<not> shouldIgnorePath S (unsupportedPaths s) a \<and>
      normalizeRelative S a \<notin> seen \<and>
      git_only (upsertEntry (entryFromStats S (date_now w (normalizeRelative S a))
                  (normalizeRelative S a) st) s) s2 \<and>
      visit w S a (seen, s) =
        (if isDirectory st then fs_readdir w a else None, (insert (normalizeRelative S a) seen, s2)))"
proof (cases "shouldIgnorePath S (unsupportedPaths s) a")
  case True
  then show ?thesis by (simp add: visit_def)
next
  case ni: False
  show ?thesis
  proof (cases "fs_stat w a")
    case (StatError c)
    with ni show ?thesis by (simp add: visit_def)
  next
    case (Stats st)
    let ?rel = "normalizeRelative S a"
    let ?s1 = "upsertEntry (entryFromStats S (date_now w ?rel) ?rel st) s"
    show ?thesis
    proof (cases "?rel \<in> seen")
      case True
      with ni Stats show ?thesis by (simp add: visit_def)
    next
      case False
      let ?s2 = "if isDirectory st then updateGitMetadataForDirectory w S a ?rel ?s1
          else refreshGitMetadataForPath w S ?rel ?s1"
      have g: "git_only ?s1 ?s2"
        by (simp add: git_only_updateGitMetadataForDirectory git_only_refreshGitMetadataForPath)
      have "visit w S a (seen, s) =
          (if isDirectory st then fs_readdir w a else None, (insert ?rel seen, ?s2))"
        using ni Stats False by (simp add: visit_def Let_def split: option.splits)
      with g ni Stats False show ?thesis by blast
    qed
  qed
qed

lemma visit_frame:
  assumes "\<forall>x\<in>set xs. valid_name x" and "visit w S (S @ xs) acc = (r, acc')"
  shows "walk_frame xs acc acc' \<and> (\<forall>cs. r = Some cs \<longrightarrow> fs_readdir w (S @ xs) = Some cs)"
proof -
  obtain seen s where acc: "acc = (seen, s)" by (cases acc)
  have rel: "normalizeRelative S (S @ xs) = rel_of xs"
    using assms(1) by (rule normalizeRelative_under)
  have bs: "rel_of xs \<in> below xs" by (rule below_self)
  from visit_shape [of w S "S @ xs" seen s]
  consider (skip) "acc' = (seen, s)" "r = None"
    | (mark) "acc' = (seen, s\<lparr>unsupportedPaths :=
          markPathUnsupported S (S @ xs) (unsupportedPaths s)\<rparr>)" "r = None"
    | (store) st s2 where "fs_stat w (S @ xs) = Stats st"
        "git_only (upsertEntry (entryFromStats S (date_now w (rel_of xs)) (rel_of xs) st) s) s2"
        "acc' = (insert (rel_of xs) seen, s2)"
        "r = (if isDirectory st then fs_readdir w (S @ xs) else None)"
    using assms(2) unfolding acc rel by auto
  then show ?thesis
  proof cases
    case skip
    then show ?thesis by (simp add: acc walk_frame_refl)
  next
    case mark
    have "unsupportedPaths s \<subseteq> markPathUnsupported S (S @ xs) (unsupportedPaths s)"
      by (auto simp: markPathUnsupported_def Let_def)
    then have "walk_frame xs (seen, s)
        (seen, s\<lparr>unsupportedPaths := markPathUnsupported S (S @ xs) (unsupportedPaths s)\<rparr>)"
      by (intro walk_frame_I) simp_all
    with mark show ?thesis by (simp add: acc)
  next
    case store
    let ?e = "entryFromStats S (date_now w (rel_of xs)) (rel_of xs) st"
    from store(2) have e2: "entries s2 = entries (upsertEntry ?e s)" "tags s2 = tags s"
      "unsupportedPaths s2 = unsupportedPaths s"
      by (simp_all add: git_only_def)
    note U = upsertEntry_set [where e = ?e and s = s]
    have pe: "path ?e = rel_of xs" by simp
    have "walk_frame xs (seen, s) (insert (rel_of xs) seen, s2)"
    proof (rule walk_frame_I)
      show "unsupportedPaths (snd (seen, s)) \<subseteq> unsupportedPaths (snd (insert (rel_of xs) seen, s2))"
        by (simp add: e2)
      show "tags (snd (insert (rel_of xs) seen, s2)) = tags (snd (seen, s))" by (simp add: e2)
      show "fst (seen, s) \<subseteq> fst (insert (rel_of xs) seen, s2)" by auto
      show "fst (insert (rel_of xs) seen, s2) \<subseteq> fst (seen, s) \<union> below xs" using bs by auto
      show "set (entries (snd (insert (rel_of xs) seen, s2))) \<subseteq>
          set (entries (snd (seen, s))) \<union> {e. path e \<in> below xs}"
        using U(1) bs pe by (auto simp: e2)
      show "{e \<in> set (entries (snd (seen, s))). path e \<notin> below xs} \<subseteq>
          set (entries (snd (insert (rel_of xs) seen, s2)))"
        using U(2) bs pe by (auto simp: e2)
      show "path ` set (entries (snd (seen, s))) \<subseteq>
          path ` set (entries (snd (insert (rel_of xs) seen, s2)))"
        using U(4) by (auto simp: e2)
      show "distinct (map path (entries (snd (insert (rel_of xs) seen, s2))))"
        if "distinct (map path (entries (snd (seen, s))))"
        using upsertEntry_distinct [where e = ?e and s = s] that by (simp add: e2)
    qed
    with store show ?thesis by (simp add: acc split: if_splits)
  qed
qed

lemma walk_children_frame:
  assumes IH: "\<And>ys acc acc'. \<forall>x\<in>set ys. valid_name x \<Longrightarrow>
      walk w S n (S @ ys) acc = Some acc' \<Longrightarrow> walk_frame ys acc acc'"
    and "\<forall>x\<in>set xs. valid_name x" and "\<forall>c\<in>set cs. valid_name c"
    and "walk_children w S n (S @ xs) cs acc = Some acc'"
  shows "walk_frame xs acc acc'"
  using assms(3,4)
proof (induction cs arbitrary: acc)
  case Nil
  then show ?case by (simp add: walk_frame_refl)
next
  case (Cons c cs)
  from Cons.prems(1) have c: "valid_name c" and cs: "\<forall>c\<in>set cs. valid_name c" by simp_all
  have pj: "path_join (S @ xs) c = S @ (xs @ [c])" using c by (simp add: path_join_valid)
  from Cons.prems(2) obtain acc1 where
    w1: "walk w S n (S @ (xs @ [c])) acc = Some acc1"
    and w2: "walk_children w S n (S @ xs) cs acc1 = Some acc'"
    by (auto simp: pj split: option.splits)
  have "walk_frame (xs @ [c]) acc acc1"
    using IH [OF _ w1] assms(2) c by simp
  then have "walk_frame xs acc acc1" by (rule walk_frame_child [OF c])
  moreover have "walk_frame xs acc1 acc'" by (rule Cons.IH [OF cs w2])
  ultimately show ?case by (rule walk_frame_trans)
qed

lemma walk_frame_holds:
  assumes "listings_valid w"
  shows "\<forall>x\<in>set xs. valid_name x \<Longrightarrow> walk w S n (S @ xs) acc = Some acc' \<Longrightarrow>
         walk_frame xs acc acc'"
proof (induction n arbitrary: xs acc acc')
  case 0
  then show ?case by (cases acc) simp
next
  case (Suc n)
  obtain r acc1 where v: "visit w S (S @ xs) acc = (r, acc1)" by (cases "visit w S (S @ xs) acc")
  note vf = visit_frame [OF Suc.prems(1) v]
  show ?case
  proof (cases r)
    case None
    with Suc.prems(2) v have "acc' = acc1" by (simp add: walk_Suc)
    with vf show ?thesis by simp
  next
    case (Some cs)
    with Suc.prems(2) v have wc: "walk_children w S n (S @ xs) cs acc1 = Some acc'"
      by (simp add: walk_Suc)
    from vf Some have "fs_readdir w (S @ xs) = Some cs" by simp
    with assms have cs: "\<forall>c\<in>set cs. valid_name c" by (auto simp: listings_valid_def)
    have "walk_frame xs acc1 acc'"
      using walk_children_frame [OF Suc.IH Suc.prems(1) cs wc] .
    with vf show ?thesis by (blast intro: walk_frame_trans)
  qed
qed

section \<open>Paths outside the start path\<close>

lemma below_Nil: "below [] = {normalizeRelative S (S @ xs) | xs. \<forall>x\<in>set xs. valid_name x}"
proof -
  have "rel_of xs = normalizeRelative S (S @ xs)" if "\<forall>x\<in>set xs. valid_name x" for xs
    using normalizeRelative_under [OF that, of S] by simp
  then show ?thesis unfolding below_def by (simp, metis)
qed

lemma scan_stores_below_root:
  assumes "listings_valid w" and "scanInitialTree w S n s = Some s'"
  shows "\<forall>e\<in>set (entries s'). e \<in> set (entries s) \<or>
           (\<exists>xs. (\<forall>x\<in>set xs. valid_name x) \<and> path e = normalizeRelative S (S @ xs))"
proof -
  from assms(2) obtain seen' where w: "walk w S n (S @ []) ({}, s) = Some (seen', s')"
    by (auto simp: scanInitialTree_def)
  have "walk_frame [] ({}, s) (seen', s')"
    using walk_frame_holds [OF assms(1) _ w] by simp
  from walk_frame_D(5) [OF this] show ?thesis
    unfolding below_Nil [of S] by auto
qed

lemma first_segment_join:
  "CHR ''/'' \<notin> set x \<Longrightarrow> takeWhile (\<lambda>c. c \<noteq> CHR ''/'') (join_with ''/'' (x # ys)) = x"
proof (cases ys)
  case Nil
  assume "CHR ''/'' \<notin> set x"
  then have "\<forall>c\<in>set x. c \<noteq> CHR ''/''" by auto
  with Nil show ?thesis by (simp add: takeWhile_eq_all_conv)
next
  case (Cons y ys')
  assume "CHR ''/'' \<notin> set x"
  then have "takeWhile (\<lambda>c. c \<noteq> CHR ''/'') (x @ CHR ''/'' # join_with ''/'' (y # ys')) =
      x @ takeWhile (\<lambda>c. c \<noteq> CHR ''/'') (CHR ''/'' # join_with ''/'' (y # ys'))"
    by (intro takeWhile_append2) auto
  with Cons show ?thesis by simp
qed

lemma normalizeRelative_outside_shape:
  assumes "\<not> prefix S a"
  shows "\<exists>ys. normalizeRelative S a = join_with ''/'' (''..'' # ys)"
proof -
  obtain f t where ft: "strip_common S a = (f, t)" by force
  with assms strip_common_prefix [OF ft] have "f \<noteq> []" by simp
  then obtain n where n: "length f = Suc n" by (cases f) auto
  have "prefix ''..'' (join_with ''/'' (''..'' # (replicate n ''..'' @ t)))"
    by (rule join_with_Cons_prefix)
  then have "join_with ''/'' (''..'' # (replicate n ''..'' @ t)) \<noteq> []" by auto
  then have "normalizeRelative S a = join_with ''/'' (''..'' # (replicate n ''..'' @ t))"
    by (simp add: normalizeRelative_def path_relative_def ft n)
  then show ?thesis by blast
qed

lemma under_not_outside:
  assumes "\<forall>x\<in>set xs. valid_name x" and "\<not> prefix S a"
  shows "normalizeRelative S (S @ xs) \<noteq> normalizeRelative S a"
proof -
  from normalizeRelative_outside_shape [OF assms(2)]
  obtain ys where ys: "normalizeRelative S a = join_with ''/'' (''..'' # ys)" by blast
  have o: "takeWhile (\<lambda>c. c \<noteq> CHR ''/'') (normalizeRelative S a) = ''..''"
    unfolding ys by (rule first_segment_join) simp
  have "takeWhile (\<lambda>c. c \<noteq> CHR ''/'') (rel_of xs) \<noteq> ''..''"
  proof (cases xs)
    case Nil
    then show ?thesis by (simp add: rel_of_def)
  next
    case (Cons x xs')
    with assms(1) have "valid_name x" by simp
    then have "CHR ''/'' \<notin> set x" "x \<noteq> ''..''" by (simp_all add: valid_name_def)
    with first_segment_join [of x xs'] show ?thesis by (simp add: rel_of_def Cons)
  qed
  with o show ?thesis using normalizeRelative_under [OF assms(1), of S] by auto
qed

lemma onEvent_entries_subset:
  "set (entries (onEvent w S ev s)) \<subseteq>
     set (entries s) \<union> {e. path e = normalizeRelative S (event_path ev)}"
proof -
  have idx: "set (entries (case indexPath w S a s of
        (False, s1) \<Rightarrow> s1 | (True, s1) \<Rightarrow> broadcast m (refreshCaches s1))) \<subseteq>
     set (entries s) \<union> {e. path e = normalizeRelative S a}" for a m
  proof (cases "shouldIgnorePath S (unsupportedPaths s) a")
    case True
    then show ?thesis by (simp add: indexPath_def)
  next
    case False
    show ?thesis
    proof (cases "fs_stat w a")
      case (StatError c)
      with False show ?thesis by (simp add: indexPath_def)
    next
      case (Stats st)
      obtain b s1 where ip: "indexPath w S a s = (b, s1)" by (cases "indexPath w S a s")
      from indexPath_entries [OF False Stats] ip
      have "b" and "entries s1 = entries (upsertEntry (entryFromStats S
          (date_now w (normalizeRelative S a)) (normalizeRelative S a) st) s)"
        by simp_all
      with ip upsertEntry_set(1) [of "entryFromStats S
          (date_now w (normalizeRelative S a)) (normalizeRelative S a) st" s]
      show ?thesis by auto
    qed
  qed
  have del: "set (entries (refreshGitMetadataForPath w S r (deleteBranchRows r s))) \<subseteq>
      set (entries s)" for r
    using git_only_refreshGitMetadataForPath [of "deleteBranchRows r s" w S r]
    by (auto simp: git_only_def entries_deleteBranchRows)
  show ?thesis
  proof (cases ev)
    case (Add a)
    with idx [where a = a] show ?thesis by simp
  next
    case (Change a)
    with idx [where a = a] show ?thesis by simp
  next
    case (AddDir a)
    with idx [where a = a] show ?thesis by simp
  next
    case (Unlink a)
    with del [of "normalizeRelative S a"] show ?thesis
      by (auto simp: removePath_def Let_def)
  next
    case (UnlinkDir a)
    with del [of "normalizeRelative S a"] show ?thesis
      by (auto simp: deleteEntryBranch_def Let_def)
  qed
qed

text \<open>
  C8. The normalizer maps every absolute path that does not have the start
  path as a prefix to a relative path beginning with \<^verbatim>\<open>..\<close>. No such value is
  stored: a scan (over listings of plain names) and a watcher event for the
  start path or a path below it (the watcher is given the start path alone,
  and reports paths under it) add only entries whose path is not the
  normalized form of any path outside; so a store without such a path stays
  without one.
\<close>

theorem outside_paths:
  "(\<not> prefix S a \<longrightarrow> prefix ''..'' (normalizeRelative S a)) \<and>
   (listings_valid w \<and> scanInitialTree w S n s = Some s' \<longrightarrow>
      (\<forall>e\<in>set (entries s'). e \<in> set (entries s) \<or>
         (\<forall>b. \<not> prefix S b \<longrightarrow> path e \<noteq> normalizeRelative S b))) \<and>
   ((\<forall>x\<in>set xs. valid_name x) \<and> event_path ev = S @ xs \<longrightarrow>
      (\<forall>e\<in>set (entries (onEvent w S ev s)). e \<in> set (entries s) \<or>
         (\<forall>b. \<not> prefix S b \<longrightarrow> path e \<noteq> normalizeRelative S b))) \<and>
   ((\<forall>e\<in>set (entries s). \<forall>b. \<not> prefix S b \<longrightarrow> path e \<noteq> normalizeRelative S b) \<and>
    ((listings_valid w \<and> scanInitialTree w S n s = Some s') \<or>
     ((\<forall>x\<in>set xs. valid_name x) \<and> event_path ev = S @ xs \<and> s' = onEvent w S ev s)) \<longrightarrow>
      (\<forall>e\<in>set (entries s'). \<forall>b. \<not> prefix S b \<longrightarrow> path e \<noteq> normalizeRelative S b))"
proof -
  have 2: "\<forall>e\<in>set (entries s'). e \<in> set (entries s) \<or>
         (\<forall>b. \<not> prefix S b \<longrightarrow> path e \<noteq> normalizeRelative S b)"
    if "listings_valid w" "scanInitialTree w S n s = Some s'" for s'
  proof
    fix e assume "e \<in> set (entries s')"
    with scan_stores_below_root [OF that] have "e \<in> set (entries s) \<or>
        (\<exists>xs. (\<forall>x\<in>set xs. valid_name x) \<and> path e = normalizeRelative S (S @ xs))" by blast
    then show "e \<in> set (entries s) \<or>
         (\<forall>b. \<not> prefix S b \<longrightarrow> path e \<noteq> normalizeRelative S b)"
      using under_not_outside by metis
  qed
  have 3: "\<forall>e\<in>set (entries (onEvent w S ev s)). e \<in> set (entries s) \<or>
         (\<forall>b. \<not> prefix S b \<longrightarrow> path e \<noteq> normalizeRelative S b)"
    if "\<forall>x\<in>set xs. valid_name x" "event_path ev = S @ xs"
  proof
    fix e assume "e \<in> set (entries (onEvent w S ev s))"
    with onEvent_entries_subset [of w S ev s] that(2)
    have "e \<in> set (entries s) \<or> path e = normalizeRelative S (S @ xs)" by auto
    then show "e \<in> set (entries s) \<or>
         (\<forall>b. \<not> prefix S b \<longrightarrow> path e \<noteq> normalizeRelative S b)"
      using under_not_outside [OF that(1)] by metis
  qed
  show ?thesis
    using normalizeRelative_outside [of S a] 2 3 by blast
qed

section \<open>A scan of the example tree\<close>

lemma tree_rel:
  "normalizeRelative [''w''] [''w''] = ''/''"
  "normalizeRelative [''w''] [''w'', ''src''] = ''src''"
  "normalizeRelative [''w''] [''w'', ''src'', ''a.txt''] = ''src/a.txt''"
  by (simp_all add: normalizeRelative_def path_relative_def)

lemma tree_not_ignored:
  "\<not> shouldIgnorePath [''w''] {} [''w'']"
  "\<not> shouldIgnorePath [''w''] {} [''w'', ''src'']"
  "\<not> shouldIgnorePath [''w''] {} [''w'', ''src'', ''a.txt'']"
  by (simp_all add: shouldIgnorePath_def tree_rel abs_string_def extname_def basename_def
      toLowerCase_def)

lemma tree_git_noop:
  "updateGitMetadataForDirectory tree_world [''w''] [''w''] ''/'' (empty_state\<lparr>entries := es\<rparr>) =
     empty_state\<lparr>entries := es\<rparr>"
  "updateGitMetadataForDirectory tree_world [''w''] [''w'', ''src''] ''src''
     (empty_state\<lparr>entries := es\<rparr>) = empty_state\<lparr>entries := es\<rparr>"
  "refreshGitMetadataForPath tree_world [''w''] ''src/a.txt'' s = s"
  by (simp_all add: updateGitMetadataForDirectory_def gatherGitMetadata_def basename_def
      tree_world_def path_join_def norm_step_def deleteGitMetadata_def empty_state_def
      dir_stats_def refreshGitMetadataForPath_def repoPathFromGitInternal_def)

lemma tree_joins:
  "path_join [''w''] ''src'' = [''w'', ''src'']"
  "path_join [''w'', ''src''] ''a.txt'' = [''w'', ''src'', ''a.txt'']"
  by (simp_all add: path_join_def norm_step_def)

lemma tree_stats:
  "fs_stat tree_world [''w''] = Stats dir_stats"
  "fs_stat tree_world [''w'', ''src''] = Stats dir_stats"
  "fs_stat tree_world [''w'', ''src'', ''a.txt''] = Stats file_stats"
  "fs_readdir tree_world [''w''] = Some [''src'']"
  "fs_readdir tree_world [''w'', ''src''] = Some [''a.txt'']"
  "date_now tree_world p = 0"
  "isDirectory dir_stats" "\<not> isDirectory file_stats"
  by (simp_all add: tree_world_def dir_stats_def file_stats_def)

lemma upsert_fresh:
  "path e \<notin> path ` set es \<Longrightarrow>
     upsertEntry e (empty_state\<lparr>entries := es\<rparr>) = empty_state\<lparr>entries := es @ [e]\<rparr>"
  by (simp add: upsertEntry_def)

lemma unsupported_empty [simp]: "unsupportedPaths (empty_state\<lparr>entries := es\<rparr>) = {}"
  by (simp add: empty_state_def)

lemma scan_tree_world: "scanInitialTree tree_world [''w''] 3 empty_state = Some scanned_state"
proof -
  have e0: "empty_state = empty_state\<lparr>entries := []\<rparr>" by (simp add: empty_state_def)
  have "walk tree_world [''w''] (Suc (Suc (Suc 0))) [''w''] ({}, empty_state\<lparr>entries := []\<rparr>) =
      Some ({''src/a.txt'', ''src'', ''/''}, scanned_state)"
    by (simp add: tree_rel tree_not_ignored tree_stats tree_joins tree_git_noop upsert_fresh
        scanned_state_def Let_def)
  then show ?thesis
    unfolding scanInitialTree_def numeral_3_eq_3 using e0 by simp
qed


lemma tree_listings_valid: "listings_valid tree_world"
  by (simp add: listings_valid_def tree_world_def valid_name_def)

lemma scanned_paths: "map path (entries scanned_state) = [''/'', ''src'', ''src/a.txt'']"
  by (simp add: scanned_state_def)

lemma outside_x: "\<not> prefix [''w''] [''x'']" "normalizeRelative [''w''] [''x''] = ''../x''"
  by (simp_all add: normalizeRelative_def path_relative_def)

theorem outside_paths_witness:
  "\<not> prefix [''w''] [''x''] \<and> normalizeRelative [''w''] [''x''] = ''../x'' \<and>
   prefix ''..'' (normalizeRelative [''w''] [''x'']) \<and>
   listings_valid tree_world \<and>
   scanInitialTree tree_world [''w''] 3 empty_state = Some scanned_state \<and>
   map path (entries scanned_state) = [''/'', ''src'', ''src/a.txt''] \<and>
   valid_name ''src'' \<and> event_path (AddDir [''w'', ''src'']) = [''w''] @ [''src''] \<and>
   ''../x'' \<notin> path ` set (entries (onEvent tree_world [''w''] (AddDir [''w'', ''src''])
                                     scanned_state))"
proof -
  let ?s' = "onEvent tree_world [''w''] (AddDir [''w'', ''src'']) scanned_state"
  have v: "valid_name ''src''" by (simp add: valid_name_def)
  have none: "\<forall>e\<in>set (entries empty_state).
      \<forall>b. \<not> prefix [''w''] b \<longrightarrow> path e \<noteq> normalizeRelative [''w''] b"
    by (simp add: empty_state_def)
  have scanned: "\<forall>e\<in>set (entries scanned_state).
      \<forall>b. \<not> prefix [''w''] b \<longrightarrow> path e \<noteq> normalizeRelative [''w''] b"
    using outside_paths [of "[''w'']" "[''x'']" tree_world 3 empty_state scanned_state "[]"
        "AddDir [''w'', ''src'']"] tree_listings_valid scan_tree_world none
    by blast
  have "\<forall>e\<in>set (entries ?s').
      \<forall>b. \<not> prefix [''w''] b \<longrightarrow> path e \<noteq> normalizeRelative [''w''] b"
    using outside_paths [of "[''w'']" "[''x'']" tree_world 3 scanned_state ?s' "[''src'']"
        "AddDir [''w'', ''src'']"] scanned v
    by (simp del: onEvent.simps)
  with outside_x have "\<forall>e\<in>set (entries ?s'). path e \<noteq> ''../x''" by metis
  then have "''../x'' \<notin> path ` set (entries ?s')" by auto
  moreover have "prefix ''..'' (normalizeRelative [''w''] [''x''])"
    using outside_paths [of "[''w'']" "[''x'']" tree_world 3 empty_state scanned_state "[]"
        "AddDir [''w'', ''src'']"] outside_x(1) by blast
  ultimately show ?thesis
    using outside_x tree_listings_valid scan_tree_world scanned_paths v
    by (simp del: onEvent.simps)
qed

section \<open>Parents are stored\<close>

lemma store_inv_cong: "entries s' = entries s \<Longrightarrow> store_inv s' = store_inv s"
  by (simp add: store_inv_def parents_stored_def)

lemma parent_path_entryFromStats [simp]:
  "parent_path (entryFromStats S n rel st) = parentOf rel"
  by (simp add: entryFromStats_def Let_def)

lemma parentOf_root [simp]: "parentOf ''/'' = None"
  by (simp add: parentOf_def)

lemma parentOf_None: "parentOf k = None \<Longrightarrow> k = ''/'' \<or> k = []"
  by (auto simp: parentOf_def split: if_splits option.splits)

lemma upsertEntry_inv:
  assumes inv: "store_inv s" and wf: "parent_path e = parentOf (path e)"
    and par: "case parentOf (path e) of None \<Rightarrow> path e = ''/'' | Some q \<Rightarrow> q \<in> path ` set (entries s)"
  shows "store_inv (upsertEntry e s)"
proof -
  note U = upsertEntry_set [where e = e and s = s]
  have wf': "\<forall>r\<in>set (entries (upsertEntry e s)). parent_path r = parentOf (path r)"
    using U(1) inv wf by (auto simp: store_inv_def)
  have "\<exists>q. parent_path r = Some q \<and> q \<in> path ` set (entries (upsertEntry e s))"
    if r: "r \<in> set (entries (upsertEntry e s))" and nr: "path r \<noteq> ''/''" for r
  proof (cases "r = e")
    case True
    with par nr wf obtain q where "parent_path e = Some q" "q \<in> path ` set (entries s)"
      by (auto split: option.splits)
    with True U(4) show ?thesis by auto
  next
    case False
    with r U(1) have "r \<in> set (entries s)" by auto
    with inv nr obtain q where "parent_path r = Some q" "q \<in> path ` set (entries s)"
      by (auto simp: store_inv_def parents_stored_def)
    with U(4) show ?thesis by auto
  qed
  with wf' show ?thesis by (auto simp: store_inv_def parents_stored_def)
qed

lemma visit_inv:
  assumes "\<forall>x\<in>set xs. valid_name x" and "store_inv (snd acc)"
    and "xs = [] \<or> rel_of (butlast xs) \<in> path ` set (entries (snd acc))"
    and "visit w S (S @ xs) acc = (r, acc')"
  shows "store_inv (snd acc') \<and> (r \<noteq> None \<longrightarrow> rel_of xs \<in> path ` set (entries (snd acc')))"
proof -
  obtain seen s where acc: "acc = (seen, s)" by (cases acc)
  have rel: "normalizeRelative S (S @ xs) = rel_of xs"
    using assms(1) by (rule normalizeRelative_under)
  from visit_shape [of w S "S @ xs" seen s]
  consider (skip) "acc' = (seen, s)" "r = None"
    | (mark) "acc' = (seen, s\<lparr>unsupportedPaths :=
          markPathUnsupported S (S @ xs) (unsupportedPaths s)\<rparr>)" "r = None"
    | (store) st s2 where "fs_stat w (S @ xs) = Stats st"
        "git_only (upsertEntry (entryFromStats S (date_now w (rel_of xs)) (rel_of xs) st) s) s2"
        "acc' = (insert (rel_of xs) seen, s2)"
    using assms(4) unfolding acc rel by auto
  then show ?thesis
  proof cases
    case skip
    with assms(2) show ?thesis by (simp add: acc)
  next
    case mark
    have "store_inv (s\<lparr>unsupportedPaths := markPathUnsupported S (S @ xs) (unsupportedPaths s)\<rparr>) =
        store_inv s"
      by (rule store_inv_cong) simp
    with mark assms(2) show ?thesis by (simp add: acc)
  next
    case store
    let ?e = "entryFromStats S (date_now w (rel_of xs)) (rel_of xs) st"
    have par: "case parentOf (path ?e) of None \<Rightarrow> path ?e = ''/''
        | Some q \<Rightarrow> q \<in> path ` set (entries s)"
    proof (cases "xs = []")
      case True
      then show ?thesis by (simp add: rel_of_def)
    next
      case False
      have v1: "\<forall>x\<in>set (butlast xs). valid_name x"
        using assms(1) by (blast dest: in_set_butlastD)
      have v2: "valid_name (last xs)" using assms(1) False by simp
      have "parentOf (rel_of (butlast xs @ [last xs])) = Some (rel_of (butlast xs))"
        using v1 v2 by (rule parentOf_rel_snoc)
      then have "parentOf (rel_of xs) = Some (rel_of (butlast xs))"
        using False by simp
      with assms(3) False show ?thesis by (simp add: acc)
    qed
    have "store_inv (upsertEntry ?e s)"
      using assms(2) par by (intro upsertEntry_inv) (simp_all add: acc)
    moreover from store(2) have e2: "entries s2 = entries (upsertEntry ?e s)"
      by (simp add: git_only_def)
    ultimately have "store_inv s2" using store_inv_cong [OF e2] by simp
    moreover have "rel_of xs \<in> path ` set (entries s2)"
      using upsertEntry_set(4) [where e = ?e and s = s] by (simp add: e2)
    ultimately show ?thesis using store(3) by simp
  qed
qed

lemma walk_children_inv:
  assumes lv: "listings_valid w"
    and IH: "\<And>ys acc acc'. \<forall>x\<in>set ys. valid_name x \<Longrightarrow> store_inv (snd acc) \<Longrightarrow>
      ys = [] \<or> rel_of (butlast ys) \<in> path ` set (entries (snd acc)) \<Longrightarrow>
      walk w S n (S @ ys) acc = Some acc' \<Longrightarrow> store_inv (snd acc')"
    and xs: "\<forall>x\<in>set xs. valid_name x" and "\<forall>c\<in>set cs. valid_name c"
    and "store_inv (snd acc)" and "rel_of xs \<in> path ` set (entries (snd acc))"
    and "walk_children w S n (S @ xs) cs acc = Some acc'"
  shows "store_inv (snd acc')"
  using assms(4-)
proof (induction cs arbitrary: acc)
  case Nil
  then show ?case by simp
next
  case (Cons c cs)
  from Cons.prems(1) have c: "valid_name c" and cs: "\<forall>c\<in>set cs. valid_name c" by simp_all
  have pj: "path_join (S @ xs) c = S @ (xs @ [c])" using c by (simp add: path_join_valid)
  from Cons.prems(4) obtain acc1 where
    w1: "walk w S n (S @ (xs @ [c])) acc = Some acc1"
    and w2: "walk_children w S n (S @ xs) cs acc1 = Some acc'"
    by (auto simp: pj split: option.splits)
  have v: "\<forall>x\<in>set (xs @ [c]). valid_name x" using xs c by simp
  have i1: "store_inv (snd acc1)"
    using IH [OF v Cons.prems(2) _ w1] Cons.prems(3) by simp
  have "walk_frame (xs @ [c]) acc acc1" using walk_frame_holds [OF lv v w1] .
  from walk_frame_D(7) [OF this] Cons.prems(3)
  have p1: "rel_of xs \<in> path ` set (entries (snd acc1))" by blast
  show ?case by (rule Cons.IH [OF cs i1 p1 w2])
qed

lemma walk_inv:
  assumes lv: "listings_valid w"
  shows "\<forall>x\<in>set xs. valid_name x \<Longrightarrow> store_inv (snd acc) \<Longrightarrow>
      xs = [] \<or> rel_of (butlast xs) \<in> path ` set (entries (snd acc)) \<Longrightarrow>
      walk w S n (S @ xs) acc = Some acc' \<Longrightarrow> store_inv (snd acc')"
proof (induction n arbitrary: xs acc acc')
  case 0
  then show ?case by (cases acc) simp
next
  case (Suc n)
  obtain r acc1 where v: "visit w S (S @ xs) acc = (r, acc1)"
    by (cases "visit w S (S @ xs) acc")
  note vi = visit_inv [OF Suc.prems(1,2,3) v]
  note vf = visit_frame [OF Suc.prems(1) v]
  show ?case
  proof (cases r)
    case None
    with Suc.prems(4) v have "acc' = acc1" by (simp add: walk_Suc)
    with vi show ?thesis by simp
  next
    case (Some cs)
    with Suc.prems(4) v have wc: "walk_children w S n (S @ xs) cs acc1 = Some acc'"
      by (simp add: walk_Suc)
    from vf Some have "fs_readdir w (S @ xs) = Some cs" by simp
    with lv have cs: "\<forall>c\<in>set cs. valid_name c" by (auto simp: listings_valid_def)
    from vi Some have i1: "store_inv (snd acc1)"
      and p1: "rel_of xs \<in> path ` set (entries (snd acc1))" by simp_all
    show ?thesis
      using walk_children_inv [OF lv Suc.IH Suc.prems(1) cs i1 p1 wc] .
  qed
qed

lemma scan_inv:
  assumes "listings_valid w" and "store_inv s" and "scanInitialTree w S n s = Some s'"
  shows "store_inv s'"
proof -
  from assms(3) obtain seen' where w: "walk w S n (S @ []) ({}, s) = Some (seen', s')"
    by (auto simp: scanInitialTree_def)
  from walk_inv [OF assms(1) _ _ _ w] assms(2) show ?thesis by simp
qed

lemma lastIndexOf_Some: "lastIndexOf d k = Some i \<Longrightarrow> i < length k \<and> k ! i = d"
  by (induction k arbitrary: i) (auto split: option.splits if_splits)

lemma parentOf_Some:
  assumes "parentOf k = Some q" and "q \<noteq> ''/''"
  shows "\<exists>rest. k = q @ ''/'' @ rest"
proof -
  from assms obtain i where i: "lastIndexOf CHR ''/'' k = Some i" and q: "q = take i k"
    by (auto simp: parentOf_def split: if_splits option.splits)
  from lastIndexOf_Some [OF i] have "k = take i k @ CHR ''/'' # drop (Suc i) k"
    using id_take_nth_drop [of i k] by simp
  with q have "k = q @ ''/'' @ drop (Suc i) k" by simp
  then show ?thesis ..
qed

lemma sql_like_trailing:
  "sql_like (p @ ''%'') x \<Longrightarrow> sql_like (p @ ''%'') (x @ y)"
proof (induction p x rule: sql_like.induct)
  case 1
  then show ?case by simp
next
  case (2 c cs)
  then show ?case by simp
next
  case (3 p ps)
  then have "sql_like (ps @ ''%'') y" by simp
  with 3 show ?case by (simp add: sql_like_percent_skip)
next
  case (4 p ps c cs)
  then show ?case by (auto split: if_splits)
qed

lemma deleteBranchRows_inv:
  assumes inv: "store_inv s" and p: "p \<noteq> ''/''" and nr: "\<not> sql_like (p @ ''/%'') ''/''"
  shows "store_inv (deleteBranchRows p s)"
proof -
  let ?gone = "\<lambda>k. k = p \<or> sql_like (p @ ''/%'') k"
  have es: "entries (deleteBranchRows p s) = filter (\<lambda>r. \<not> ?gone (path r)) (entries s)"
    by (simp add: entries_deleteBranchRows)
  have child_gone: "?gone k" if "parentOf k = Some q" "?gone q" for k q
  proof -
    from that(2) p nr have "q \<noteq> ''/''" by auto
    from parentOf_Some [OF that(1) this] obtain rest where k: "k = q @ ''/'' @ rest" by blast
    from that(2) show ?thesis
    proof
      assume "q = p"
      then have "prefix (p @ ''/'') k" by (simp add: k)
      then show ?thesis by (simp add: sql_like_descendant)
    next
      assume "sql_like (p @ ''/%'') q"
      then have "sql_like ((p @ ''/'') @ ''%'') (q @ (''/'' @ rest))"
        by (intro sql_like_trailing) simp
      then show ?thesis by (simp add: k)
    qed
  qed
  have "\<exists>q. parent_path r = Some q \<and> q \<in> path ` set (entries (deleteBranchRows p s))"
    if r: "r \<in> set (entries (deleteBranchRows p s))" and nroot: "path r \<noteq> ''/''" for r
  proof -
    from r have rs: "r \<in> set (entries s)" and ng: "\<not> ?gone (path r)" by (simp_all add: es)
    from inv rs nroot obtain q where q: "parent_path r = Some q" "q \<in> path ` set (entries s)"
      and wf: "parent_path r = parentOf (path r)"
      by (auto simp: store_inv_def parents_stored_def)
    from q(1) wf have "parentOf (path r) = Some q" by simp
    with child_gone [of "path r" q] ng have "\<not> ?gone q" by blast
    with q(2) have "q \<in> path ` set (entries (deleteBranchRows p s))" by (auto simp: es)
    with q(1) show ?thesis by blast
  qed
  moreover have "\<forall>r\<in>set (entries (deleteBranchRows p s)). parent_path r = parentOf (path r)"
    using inv by (auto simp: es store_inv_def)
  ultimately show ?thesis by (auto simp: store_inv_def parents_stored_def)
qed

lemma store_inv_broadcast_refresh [simp]:
  "store_inv (broadcast m (refreshCaches s)) = store_inv s"
  by (rule store_inv_cong) simp

lemma store_inv_refreshCaches [simp]: "store_inv (refreshCaches s) = store_inv s"
  by (rule store_inv_cong) (simp add: refreshCaches_def)

lemma store_inv_refreshGit [simp]:
  "store_inv (refreshGitMetadataForPath w S rel s) = store_inv s"
  using git_only_refreshGitMetadataForPath [of s w S rel]
  by (intro store_inv_cong) (simp add: git_only_def)

lemma indexPath_inv:
  assumes "store_inv s" and "parent_known S a s"
  shows "store_inv (snd (indexPath w S a s))"
proof (cases "\<not> shouldIgnorePath S (unsupportedPaths s) a \<and> (\<exists>st. fs_stat w a = Stats st)")
  case True
  then obtain st where ni: "\<not> shouldIgnorePath S (unsupportedPaths s) a"
    and st: "fs_stat w a = Stats st" by blast
  let ?rel = "normalizeRelative S a"
  let ?e = "entryFromStats S (date_now w ?rel) ?rel st"
  have rel_ne: "?rel \<noteq> []" by (simp add: normalizeRelative_def Let_def)
  have "case parentOf (path ?e) of None \<Rightarrow> path ?e = ''/'' | Some q \<Rightarrow> q \<in> path ` set (entries s)"
    using assms(2) rel_ne by (auto simp: parent_known_def split: option.splits dest: parentOf_None)
  with assms(1) have "store_inv (upsertEntry ?e s)" by (intro upsertEntry_inv) simp_all
  moreover have "entries (snd (indexPath w S a s)) = entries (upsertEntry ?e s)"
    using indexPath_entries [OF ni st] by simp
  ultimately show ?thesis using store_inv_cong [of "snd (indexPath w S a s)" "upsertEntry ?e s"]
    by simp
next
  case False
  then have "entries (snd (indexPath w S a s)) = entries s"
    by (auto simp: indexPath_def split: stat_result.splits)
  with assms(1) show ?thesis using store_inv_cong [of "snd (indexPath w S a s)" s] by simp
qed

lemma onEvent_inv:
  assumes "store_inv s" and "event_ok S ev s"
  shows "store_inv (onEvent w S ev s)"
proof -
  have idx: "store_inv (case indexPath w S a s of (False, s1) \<Rightarrow> s1
      | (True, s1) \<Rightarrow> broadcast m (refreshCaches s1))"
    if "parent_known S a s" for a m
    using indexPath_inv [OF assms(1) that, of w]
    by (cases "indexPath w S a s") (auto split: bool.splits)
  show ?thesis
  proof (cases ev)
    case (Add a)
    with assms(2) idx [of a] show ?thesis by simp
  next
    case (Change a)
    with assms(2) idx [of a] show ?thesis by simp
  next
    case (AddDir a)
    with assms(2) idx [of a] show ?thesis by simp
  next
    case (Unlink a)
    with assms deleteBranchRows_inv [of s "normalizeRelative S a"] show ?thesis
      by (simp add: removePath_def Let_def)
  next
    case (UnlinkDir a)
    with assms deleteBranchRows_inv [of s "normalizeRelative S a"] show ?thesis
      by (simp add: deleteEntryBranch_def Let_def)
  qed
qed

lemma apply_op_inv:
  assumes "store_inv s" and "op_listings_valid x" and "apply_op S x s = Some s'"
  shows "store_inv s'"
proof (cases x)
  case (Scan w n)
  with assms(3) obtain s1 where "scanInitialTree w S n s = Some s1" "s' = refreshCaches s1"
    by auto
  with scan_inv [of w s S n s1] assms(1,2) Scan show ?thesis by simp
next
  case (Event w ev)
  with assms(3) have "event_ok S ev s" "s' = onEvent w S ev s" by (auto split: if_splits)
  with onEvent_inv [OF assms(1)] show ?thesis by simp
next
  case (PostTag p k v)
  have "entries (snd (postTag p k v s)) = entries s"
    by (auto simp: postTag_def addTag_def broadcast_def refreshCaches_def Let_def
        split: option.splits sum.splits if_splits)
  with assms(1,3) PostTag show ?thesis
    using store_inv_cong [of "snd (postTag p k v s)" s] by auto
next
  case (DeleteTag p k v)
  have "entries (snd (deleteTagRequest p k v s)) = entries s"
    by (simp add: deleteTagRequest_def deleteTag_def broadcast_def refreshCaches_def)
  with assms(1,3) DeleteTag show ?thesis
    using store_inv_cong [of "snd (deleteTagRequest p k v s)" s] by auto
qed

lemma run_ops_inv:
  "store_inv s \<Longrightarrow> \<forall>x\<in>set ops. op_listings_valid x \<Longrightarrow> run_ops S ops s = Some s' \<Longrightarrow>
     store_inv s'"
proof (induction ops arbitrary: s)
  case Nil
  then show ?case by simp
next
  case (Cons x ops)
  from Cons.prems(3) obtain s1 where a: "apply_op S x s = Some s1"
    and r: "run_ops S ops s1 = Some s'" by (auto split: option.splits)
  from apply_op_inv [OF Cons.prems(1) _ a] Cons.prems(2) have "store_inv s1" by simp
  from Cons.IH [OF this _ r] Cons.prems(2) show ?case by simp
qed

lemma store_inv_empty: "store_inv empty_state"
  by (simp add: store_inv_def parents_stored_def empty_state_def)

text \<open>
  C3 as amended. Start from the empty store and run any sequence of scans
  (over listings of plain names), watcher events and tag requests in which
  every add, change and add-directory event comes when the parent of its path
  is stored or its path is the root, no remove event has a pattern that
  matches the root, and no remove-file event is for the root. Then every
  stored entry other than the root has a parent path that is the path of a
  stored entry.
\<close>

theorem parents_stored_after_guarded_run:
  assumes "\<forall>x\<in>set ops. op_listings_valid x" and "run_ops S ops empty_state = Some s"
  shows "parents_stored s"
  using run_ops_inv [OF store_inv_empty assms] by (simp add: store_inv_def)

lemma entries_refreshCaches [simp]: "entries (refreshCaches s) = entries s"
  by (simp add: refreshCaches_def)

lemma unsupported_refreshCaches [simp]: "unsupportedPaths (refreshCaches s) = unsupportedPaths s"
  by (simp add: refreshCaches_def)

lemma unsupported_scanned [simp]: "unsupportedPaths scanned_state = {}"
  by (simp add: scanned_state_def empty_state_def)

lemma unsupported_empty_state [simp]: "unsupportedPaths empty_state = {}"
  by (simp add: empty_state_def)

lemma entries_empty_state [simp]: "entries empty_state = []"
  by (simp add: empty_state_def)

lemma onEvent_index_entries:
  assumes "\<not> shouldIgnorePath S (unsupportedPaths s) a" and "fs_stat w a = Stats st"
    and "ev = Add a \<or> ev = Change a \<or> ev = AddDir a"
  shows "entries (onEvent w S ev s) =
     entries (upsertEntry (entryFromStats S (date_now w (normalizeRelative S a))
                (normalizeRelative S a) st) s)"
proof -
  obtain b s1 where ip: "indexPath w S a s = (b, s1)" by (cases "indexPath w S a s")
  from indexPath_entries [OF assms(1,2)] ip
  have "b" and "entries s1 = entries (upsertEntry (entryFromStats S
      (date_now w (normalizeRelative S a)) (normalizeRelative S a) st) s)"
    by simp_all
  with assms(3) ip show ?thesis by auto
qed

lemma onEvent_unlinkDir_entries:
  assumes "\<not> shouldIgnorePath S (unsupportedPaths s) a" and "normalizeRelative S a \<noteq> ''/''"
  shows "entries (onEvent w S (UnlinkDir a) s) =
     filter (\<lambda>r. path r \<noteq> normalizeRelative S a \<and>
                  \<not> sql_like (normalizeRelative S a @ ''/%'') (path r)) (entries s)"
proof -
  let ?rel = "normalizeRelative S a"
  have ne: "?rel \<noteq> []" by (simp add: normalizeRelative_def Let_def)
  have "entries (refreshGitMetadataForPath w S ?rel (deleteBranchRows ?rel s)) =
      entries (deleteBranchRows ?rel s)"
    using git_only_refreshGitMetadataForPath [of "deleteBranchRows ?rel s" w S ?rel]
    by (simp add: git_only_def)
  with assms ne show ?thesis
    by (simp add: deleteEntryBranch_def entries_deleteBranchRows Let_def)
qed

text \<open>
  C3 as stated fails: from the empty store, the add event for the file
  \<^verbatim>\<open>/w/src/a.txt\<close> alone leaves one entry, whose parent path \<^verbatim>\<open>src\<close> is the path
  of no stored entry.
\<close>

theorem add_event_without_parent:
  "map (\<lambda>e. (path e, parent_path e))
     (entries (onEvent tree_world [''w''] (Add [''w'', ''src'', ''a.txt'']) empty_state)) =
     [(''src/a.txt'', Some ''src'')] \<and>
   \<not> parents_stored (onEvent tree_world [''w''] (Add [''w'', ''src'', ''a.txt'']) empty_state)"
proof -
  have ni: "\<not> shouldIgnorePath [''w''] (unsupportedPaths empty_state) [''w'', ''src'', ''a.txt'']"
    by (simp add: tree_not_ignored)
  have par: "parentOf ''src/a.txt'' = Some ''src''" by (simp add: parentOf_def)
  have "entries (onEvent tree_world [''w''] (Add [''w'', ''src'', ''a.txt'']) empty_state) =
      [entryFromStats [''w''] 0 ''src/a.txt'' file_stats]"
    using onEvent_index_entries [OF ni tree_stats(3), of "Add [''w'', ''src'', ''a.txt'']"]
    by (simp add: tree_rel tree_stats upsertEntry_def del: onEvent.simps)
  then show ?thesis
    by (simp add: parents_stored_def par del: onEvent.simps)
qed

lemma demo_run:
  "map_option (\<lambda>s. map path (entries s)) (run_ops [''w''] demo_ops empty_state) = Some [''/'']"
proof -
  let ?t1 = "refreshCaches scanned_state"
  let ?t2 = "onEvent tree_world [''w''] (Change [''w'', ''src'', ''a.txt'']) ?t1"
  let ?t3 = "onEvent tree_world [''w''] (UnlinkDir [''w'', ''src'']) ?t2"
  have par: "parentOf ''src/a.txt'' = Some ''src''" by (simp add: parentOf_def)
  have a1: "apply_op [''w''] (Scan tree_world 3) empty_state = Some ?t1"
    by (simp add: scan_tree_world)
  have ok2: "event_ok [''w''] (Change [''w'', ''src'', ''a.txt'']) ?t1"
    by (simp add: parent_known_def tree_rel par scanned_state_def)
  have ni2: "\<not> shouldIgnorePath [''w''] (unsupportedPaths ?t1) [''w'', ''src'', ''a.txt'']"
    by (simp add: tree_not_ignored)
  have e2: "entries ?t2 = entries scanned_state"
    using onEvent_index_entries [OF ni2 tree_stats(3), of "Change [''w'', ''src'', ''a.txt'']"]
    by (simp add: tree_rel tree_stats upsertEntry_def scanned_state_def del: onEvent.simps)
  have u2: "unsupportedPaths ?t2 = {}"
    using ni2
    by (simp add: indexPath_def tree_stats tree_rel Let_def tree_git_noop broadcast_def
        deleteGitMetadata_def upsertEntry_def)
  have ok3: "event_ok [''w''] (UnlinkDir [''w'', ''src'']) ?t2"
    by (simp add: tree_rel to_lower_char_def)
  have ni3: "\<not> shouldIgnorePath [''w''] (unsupportedPaths ?t2) [''w'', ''src'']"
    by (simp only: u2 tree_not_ignored) simp
  have "entries ?t3 =
      filter (\<lambda>r. path r \<noteq> ''src'' \<and> \<not> sql_like (''src'' @ ''/%'') (path r))
        (entries scanned_state)"
    using onEvent_unlinkDir_entries [OF ni3, of tree_world]
    by (simp add: tree_rel e2 del: onEvent.simps)
  then have e3: "map path (entries ?t3) = [''/'']"
    by (simp add: scanned_state_def to_lower_char_def del: onEvent.simps)
  have "run_ops [''w''] demo_ops empty_state = Some ?t3"
    using a1 ok2 ok3 by (simp add: demo_ops_def del: onEvent.simps apply_op.simps(1))
  then show ?thesis by (simp add: e3 del: onEvent.simps)
qed

theorem parents_stored_after_guarded_run_witness:
  "list_all op_listings_valid demo_ops \<and>
   map_option (\<lambda>s. map path (entries s)) (run_ops [''w''] demo_ops empty_state) = Some [''/''] \<and>
   map_option parents_stored (run_ops [''w''] demo_ops empty_state) = Some True"
proof -
  have lv: "\<forall>x\<in>set demo_ops. op_listings_valid x"
    by (simp add: demo_ops_def tree_listings_valid)
  from demo_run obtain s where s: "run_ops [''w''] demo_ops empty_state = Some s" by auto
  from parents_stored_after_guarded_run [OF lv s] have "parents_stored s" .
  with lv s demo_run show ?thesis by (simp add: list_all_iff)
qed

end
